theory Spec2Isabelle
  imports Main "HOL-Library.Word" "HOL-Library.Sublist"
begin

section \<open>JavaScript strings\<close>

text \<open>
  A JavaScript string is a sequence of UTF-16 code units, and \<^verbatim>\<open>length\<close> counts code
  units. String literals of the source are written \<open>js ''...''\<close>.
\<close>

type_synonym codeunit = "16 word"
type_synonym jsstring = "codeunit list"

definition js :: "string \<Rightarrow> jsstring" where
  "js s = map of_char s"

text \<open>ECMAScript LineTerminator: LF, CR, LINE SEPARATOR, PARAGRAPH SEPARATOR.\<close>

definition isLineTerminator :: "codeunit \<Rightarrow> bool" where
  "isLineTerminator c = (c = 0x000A \<or> c = 0x000D \<or> c = 0x2028 \<or> c = 0x2029)"

text \<open>ECMAScript WhiteSpace: TAB, VT, FF, ZWNBSP and the code points of category Zs.\<close>

definition isWhiteSpace :: "codeunit \<Rightarrow> bool" where
  "isWhiteSpace c =
     (c = 0x0009 \<or> c = 0x000B \<or> c = 0x000C \<or> c = 0x0020 \<or> c = 0x00A0 \<or> c = 0x1680 \<or>
      (0x2000 \<le> c \<and> c \<le> 0x200A) \<or> c = 0x202F \<or> c = 0x205F \<or> c = 0x3000 \<or> c = 0xFEFF)"

text \<open>\<^verbatim>\<open>String.prototype.trim\<close> strips WhiteSpace and LineTerminator from both ends.\<close>

definition trimmable :: "codeunit \<Rightarrow> bool" where
  "trimmable c = (isWhiteSpace c \<or> isLineTerminator c)"

definition trim :: "jsstring \<Rightarrow> jsstring" where
  "trim s = rev (dropWhile trimmable (rev (dropWhile trimmable s)))"

text \<open>
  \<^verbatim>\<open>s.substring(a, b)\<close>: both indices are clamped to the length and swapped when
  \<open>a > b\<close>; \<^verbatim>\<open>s.substring(a)\<close> is \<open>substring s a (length s)\<close>.
\<close>

definition substring :: "jsstring \<Rightarrow> nat \<Rightarrow> nat \<Rightarrow> jsstring" where
  "substring s a b =
     (let a' = min a (length s); b' = min b (length s);
          lo = min a' b'; hi = max a' b'
      in take (hi - lo) (drop lo s))"

text \<open>\<^verbatim>\<open>xs.join(sep)\<close> on an array of strings.\<close>

fun join :: "jsstring \<Rightarrow> jsstring list \<Rightarrow> jsstring" where
  "join sep [] = []"
| "join sep [x] = x"
| "join sep (x # y # ys) = x @ sep @ join sep (y # ys)"

section \<open>parsePerFileDiffs\<close>

record fileDiff =
  filename :: jsstring
  diffContent :: jsstring

text \<open>
  The pattern \<^verbatim>\<open>/^diff --git a\/(.*?) b\/.*$/gm\<close>. With the \<^verbatim>\<open>m\<close> flag, \<^verbatim>\<open>^\<close> holds at
  index 0 and after a LineTerminator, \<^verbatim>\<open>$\<close> holds at the end of the input and before a
  LineTerminator; \<^verbatim>\<open>.\<close> is any code unit but a LineTerminator. The greedy \<^verbatim>\<open>.*$\<close> runs to
  the end of the line, and the lazy group \<^verbatim>\<open>(.*?)\<close> stops at the first \<^verbatim>\<open> b/\<close> of the line.
\<close>

definition lineStart :: "jsstring \<Rightarrow> nat \<Rightarrow> bool" where
  "lineStart s i = (i = 0 \<or> isLineTerminator (s ! (i - 1)))"

definition restOfLine :: "jsstring \<Rightarrow> nat \<Rightarrow> jsstring" where
  "restOfLine s i = takeWhile (\<lambda>c. \<not> isLineTerminator c) (drop i s)"

text \<open>The group \<^verbatim>\<open>(.*?)\<close> followed by \<^verbatim>\<open> b\/.*$\<close>, on the rest of a line.\<close>

fun lazyCapture :: "jsstring \<Rightarrow> jsstring option" where
  "lazyCapture [] = None"
| "lazyCapture (c # cs) =
     (if prefix (js '' b/'') (c # cs) then Some []
      else map_option ((#) c) (lazyCapture cs))"

text \<open>One attempt of the pattern at index \<open>i\<close>: the capture and the index after the match.\<close>

definition matchAt :: "jsstring \<Rightarrow> nat \<Rightarrow> (jsstring \<times> nat) option" where
  "matchAt s i =
     (if \<not> lineStart s i then None
      else if \<not> prefix (js ''diff --git a/'') (restOfLine s i) then None
      else case lazyCapture (drop (length (js ''diff --git a/'')) (restOfLine s i)) of
             None \<Rightarrow> None
           | Some g \<Rightarrow> Some (g, i + length (restOfLine s i)))"

record regExpExecArray =
  index :: nat
  group1 :: jsstring
  lastIndex :: nat

text \<open>
  \<^verbatim>\<open>diffPattern.exec(diff)\<close> of a global pattern whose \<^verbatim>\<open>lastIndex\<close> is \<open>i\<close>: the first
  index from \<open>i\<close> on at which the pattern matches. The field \<open>lastIndex\<close> of the result
  is the pattern's \<^verbatim>\<open>lastIndex\<close> after the call and \<open>group1\<close> is \<^verbatim>\<open>match[1]\<close>.
\<close>

function exec :: "jsstring \<Rightarrow> nat \<Rightarrow> regExpExecArray option" where
  "exec s i =
     (if length s < i then None
      else case matchAt s i of
             Some (g, e) \<Rightarrow> Some \<lparr>index = i, group1 = g, lastIndex = e\<rparr>
           | None \<Rightarrow> exec s (Suc i))"
  by pat_completeness auto
termination
  by (relation "measure (\<lambda>(s, i). Suc (length s) - i)") auto

declare exec.simps [simp del]

lemma length_header: "length (js ''diff --git a/'') = 13"
  by (simp add: js_def)

lemma matchAt_bounds:
  assumes "matchAt s i = Some (g, e)"
  shows "i < e" and "e \<le> length s"
proof -
  from assms have p: "prefix (js ''diff --git a/'') (restOfLine s i)"
    and e: "e = i + length (restOfLine s i)"
    by (auto simp: matchAt_def split: if_splits option.splits)
  from p have "length (js ''diff --git a/'') \<le> length (restOfLine s i)"
    by (rule prefix_length_le)
  then have len: "13 \<le> length (restOfLine s i)"
    by (simp only: length_header)
  then show "i < e" using e by arith
  have le: "length (restOfLine s i) \<le> length (drop i s)"
    unfolding restOfLine_def by (rule length_takeWhile_le)
  with len have "i < length s" by (cases "i < length s") auto
  with le show "e \<le> length s" using e by simp
qed

lemma exec_Some:
  "exec s i = Some m \<Longrightarrow>
     i \<le> index m \<and> matchAt s (index m) = Some (group1 m, lastIndex m) \<and>
     (\<forall>j. i \<le> j \<and> j < index m \<longrightarrow> matchAt s j = None)"
proof (induction s i rule: exec.induct)
  case (1 s i)
  show ?case
  proof (cases "matchAt s i")
    case None
    with "1.prems" have le: "\<not> length s < i" and r: "exec s (Suc i) = Some m"
      by (auto simp: exec.simps [of s i] split: if_splits)
    from "1.IH" [OF le None r] have a: "Suc i \<le> index m"
      and b: "matchAt s (index m) = Some (group1 m, lastIndex m)"
      and c: "\<forall>j. Suc i \<le> j \<and> j < index m \<longrightarrow> matchAt s j = None"
      by auto
    have "matchAt s j = None" if "i \<le> j" "j < index m" for j
      using that c None by (cases "j = i") auto
    then show ?thesis using a b by auto
  next
    case (Some p)
    with "1.prems" show ?thesis
      by (cases p) (auto simp: exec.simps [of s i] split: if_splits)
  qed
qed

lemma exec_None:
  "exec s i = None \<Longrightarrow> i \<le> j \<Longrightarrow> j \<le> length s \<Longrightarrow> matchAt s j = None"
proof (induction s i rule: exec.induct)
  case (1 s i)
  from "1.prems" have le: "\<not> length s < i" by simp
  show ?case
  proof (cases "matchAt s i")
    case None
    with "1.prems" le have r: "exec s (Suc i) = None"
      by (simp add: exec.simps [of s i])
    show ?thesis
    proof (cases "j = i")
      case True
      with None show ?thesis by simp
    next
      case False
      with "1.prems" have "Suc i \<le> j" by simp
      from "1.IH" [OF le None r this "1.prems"(3)] show ?thesis .
    qed
  next
    case (Some p)
    with "1.prems" le show ?thesis
      by (cases p) (simp add: exec.simps [of s i])
  qed
qed

lemma exec_progress:
  "exec s i = Some m \<Longrightarrow> i \<le> index m \<and> index m < lastIndex m \<and> lastIndex m \<le> length s"
  using exec_Some [of s i m] matchAt_bounds [of s "index m" "group1 m" "lastIndex m"]
  by simp

text \<open>
  The \<^verbatim>\<open>while ((match = diffPattern.exec(diff)) !== null)\<close> loop. The state is the
  pattern's \<^verbatim>\<open>lastIndex\<close> (\<open>re\<close>), the variable \<^verbatim>\<open>lastIndex\<close> (\<open>li\<close>) and the array
  \<^verbatim>\<open>perFileDiffs\<close>; the result is the array and \<^verbatim>\<open>lastIndex\<close> when \<^verbatim>\<open>exec\<close> returns null.
\<close>

definition setLastContent :: "fileDiff list \<Rightarrow> jsstring \<Rightarrow> fileDiff list" where
  "setLastContent fs c = fs[length fs - 1 := (fs ! (length fs - 1))\<lparr>diffContent := c\<rparr>]"

function parseLoop :: "jsstring \<Rightarrow> nat \<Rightarrow> nat \<Rightarrow> fileDiff list \<Rightarrow> fileDiff list \<times> nat" where
  "parseLoop diff re li perFileDiffs =
     (case exec diff re of
        None \<Rightarrow> (perFileDiffs, li)
      | Some m \<Rightarrow>
          parseLoop diff (lastIndex m) (index m)
            ((if length perFileDiffs > 0
              then setLastContent perFileDiffs (trim (substring diff li (index m)))
              else perFileDiffs)
             @ [\<lparr>filename = group1 m, diffContent = []\<rparr>]))"
  by pat_completeness auto
termination
  by (relation "measure (\<lambda>(diff, re, li, fs). length diff - re)")
     (auto dest!: exec_progress)

declare parseLoop.simps [simp del]

definition parsePerFileDiffs :: "jsstring \<Rightarrow> fileDiff list" where
  "parsePerFileDiffs diff =
     (case parseLoop diff 0 0 [] of
        (perFileDiffs, li) \<Rightarrow>
          if length perFileDiffs > 0 \<and> li < length diff
          then setLastContent perFileDiffs (trim (substring diff li (length diff)))
          else perFileDiffs)"

section \<open>isEssentialFile\<close>

text \<open>The deny list \<^verbatim>\<open>nonEssentialExtensions\<close>, in the order of the source.\<close>

definition nonEssentialExtensions :: "jsstring list" where
  "nonEssentialExtensions = map js
     [''.png'', ''.jpg'', ''.jpeg'', ''.gif'', ''.bmp'', ''.tiff'', ''.svg'', ''.ico'',
      ''.psd'', ''.ai'', ''.eps'', ''.mp4'', ''.avi'', ''.mov'', ''.wmv'', ''.flv'',
      ''.mkv'', ''.webm'', ''.mpeg'', ''.mpg'', ''.m4v'', ''.mp3'', ''.wav'', ''.flac'',
      ''.aac'', ''.ogg'', ''.wma'', ''.m4a'', ''.aiff'', ''.ape'', ''.pdf'', ''.doc'',
      ''.docx'', ''.xls'', ''.xlsx'', ''.ppt'', ''.pptx'', ''.odt'', ''.ods'', ''.odp'',
      ''.zip'', ''.rar'', ''.7z'', ''.tar'', ''.gz'', ''.bz2'', ''.xz'', ''.lz'', ''.z'',
      ''.exe'', ''.dll'', ''.so'', ''.dylib'', ''.bin'', ''.class'', ''.jar'', ''.war'',
      ''.ear'', ''.msi'', ''.apk'', ''.ipa'', ''.o'', ''.obj'', ''.pyc'', ''.pyo'',
      ''.pyd'', ''.lib'', ''.a'', ''.dSYM'', ''.sys'', ''.tmp'', ''.bak'', ''.old'',
      ''.swp'', ''.swo'', ''.lock'', ''.cfg'', ''.ini'', ''.db'', ''.sqlite'',
      ''.sqlite3'', ''.mdb'', ''.accdb'', ''.dbf'', ''.frm'', ''.myd'', ''.myi'', ''.ttf'',
      ''.otf'', ''.woff'', ''.woff2'', ''.eot'', ''.log'', ''.bak'', ''.orig'', ''.sav'',
      ''.save'', ''.dump'', ''.crt'', ''.pem'', ''.key'', ''.csr'', ''.der'', ''.plist'',
      ''.mobileprovision'', ''.icns'', ''.ds_store'', ''thumbs.db'', ''desktop.ini'',
      ''.map'', ''.min.js'', ''.d.ts'', ''.map.js'', ''.map.css'', ''.bundle.js'',
      ''.bundle.css'', ''.bundle.js.map'', ''.bundle.css.map'', ''.bundle.min.js'']"

text \<open>
  \<^verbatim>\<open>!nonEssentialExtensions.some((ext) => filename.toLowerCase().endsWith(ext))\<close>.
  \<^verbatim>\<open>String.prototype.toLowerCase\<close> follows the Unicode case mappings; it is the
  parameter \<open>toLowerCase\<close>.
\<close>

definition isEssentialFile :: "(jsstring \<Rightarrow> jsstring) \<Rightarrow> jsstring \<Rightarrow> bool" where
  "isEssentialFile toLowerCase name =
     (\<not> list_ex (\<lambda>ext. suffix ext (toLowerCase name)) nonEssentialExtensions)"

text \<open>
  The case mapping on strings of ASCII code units, where \<^verbatim>\<open>toLowerCase\<close> maps
  \<^verbatim>\<open>A\<close>..\<^verbatim>\<open>Z\<close> to \<^verbatim>\<open>a\<close>..\<^verbatim>\<open>z\<close> and nothing else; used to evaluate concrete inputs.
\<close>

definition toLowerCaseASCII :: "jsstring \<Rightarrow> jsstring" where
  "toLowerCaseASCII s = map (\<lambda>c. if 0x41 \<le> c \<and> c \<le> 0x5A then c + 0x20 else c) s"

section \<open>JavaScript numbers\<close>

text \<open>
  The budget is computed in the Number type, the IEEE-754 double. The numbers of this
  program are integers: the token counts of \<^verbatim>\<open>TokenLimits\<close>, the lengths of strings and
  arrays, and their sums and differences. An integer is a Number when its magnitude has
  at most 53 significant bits, and the sum or difference of two Numbers is the exact
  result rounded to the nearest Number, a tie going to the even significand. The
  exponent range is left unbounded: lengths are below \<open>2 ^ 53\<close>, so a finite budget never
  leads to a total of \<open>2 ^ 1024\<close>, where the double is infinite. Limits that are not
  integers, infinite or NaN are not modelled.
\<close>

text \<open>The number of low bits of a magnitude that do not fit into 53 bits.\<close>

function excess :: "int \<Rightarrow> nat" where
  "excess m = (if m < 2 ^ 53 then 0 else Suc (excess (m div 2)))"
  by pat_completeness auto
termination
  by (relation "measure (\<lambda>m. nat m)") auto

declare excess.simps [simp del]

text \<open>Rounding of a magnitude to 53 significant bits, to nearest, ties to even.\<close>

definition roundMagnitude :: "int \<Rightarrow> int" where
  "roundMagnitude m =
     (let e = excess m; q = m div 2 ^ e; r = m mod 2 ^ e
      in if 2 * r > 2 ^ e \<or> (2 * r = 2 ^ e \<and> odd q) then (q + 1) * 2 ^ e else q * 2 ^ e)"

text \<open>The Number nearest to an integer.\<close>

definition roundToNumber :: "int \<Rightarrow> int" where
  "roundToNumber x = (if x < 0 then - roundMagnitude (- x) else roundMagnitude x)"

subsection \<open>The rounding is idempotent, monotone and to nearest\<close>

lemma excess_small: "m < 2 ^ 53 \<Longrightarrow> excess m = 0"
  by (simp add: excess.simps)

lemma excess_upper: "m < 2 ^ 53 * 2 ^ excess m"
proof (induction m rule: excess.induct)
  case (1 m)
  show ?case
  proof (cases "m < 2 ^ 53")
    case True
    then show ?thesis by (simp add: excess.simps [of m])
  next
    case False
    from "1.IH" [OF False] have "m div 2 < 2 ^ 53 * 2 ^ excess (m div 2)" .
    then have "m < 2 * (2 ^ 53 * 2 ^ excess (m div 2))" by linarith
    with False show ?thesis by (simp add: excess.simps [of m])
  qed
qed

lemma excess_lower: "0 < excess m \<Longrightarrow> 2 ^ 52 * 2 ^ excess m \<le> m"
proof (induction m rule: excess.induct)
  case (1 m)
  show ?case
  proof (cases "m < 2 ^ 53")
    case True
    with "1.prems" show ?thesis by (simp add: excess.simps [of m])
  next
    case False
    show ?thesis
    proof (cases "0 < excess (m div 2)")
      case True
      from "1.IH" [OF False True] have "2 * (2 ^ 52 * 2 ^ excess (m div 2)) \<le> m" by linarith
      with False show ?thesis by (simp add: excess.simps [of m])
    next
      case e0: False
      with False show ?thesis by (simp add: excess.simps [of m])
    qed
  qed
qed

lemma excess_unique:
  assumes "0 < e" and lo: "2 ^ 52 * 2 ^ e \<le> m" and hi: "m < 2 ^ 53 * 2 ^ e"
  shows "excess m = e"
proof -
  have "(2::int) ^ 52 * 2 ^ e < 2 ^ 53 * 2 ^ excess m"
    using lo excess_upper [of m] by linarith
  then have "(2::int) ^ (52 + e) < 2 ^ (53 + excess m)" by (simp only: power_add)
  then have a: "52 + e < 53 + excess m" by (rule power_less_imp_less_exp [rotated]) simp
  then have pos: "0 < excess m" using assms(1) by simp
  have "(2::int) ^ 52 * 2 ^ excess m < 2 ^ 53 * 2 ^ e"
    using hi excess_lower [OF pos] by linarith
  then have "(2::int) ^ (52 + excess m) < 2 ^ (53 + e)" by (simp only: power_add)
  then have "52 + excess m < 53 + e" by (rule power_less_imp_less_exp [rotated]) simp
  with a show ?thesis by simp
qed

lemma div_lower:
  fixes m a c :: int
  assumes "0 < c" "a * c \<le> m"
  shows "a \<le> m div c"
proof -
  from assms have "(a * c) div c \<le> m div c" by (intro zdiv_mono1)
  with assms(1) show ?thesis by simp
qed

lemma div_upper:
  fixes m a c :: int
  assumes "0 < c" "m < a * c"
  shows "m div c < a"
proof (rule ccontr)
  assume "\<not> m div c < a"
  then have "a \<le> m div c" by simp
  with assms(1) have "a * c \<le> (m div c) * c" by (intro mult_right_mono) simp_all
  moreover have "(m div c) * c + m mod c = m" by simp
  moreover have "0 \<le> m mod c" using assms(1) by simp
  ultimately show False using assms(2) by linarith
qed

lemma excess_large:
  assumes "2 ^ 53 \<le> m"
  shows "0 < excess m" and "2 ^ 52 \<le> m div 2 ^ excess m" and "m div 2 ^ excess m < 2 ^ 53"
proof -
  from assms show pos: "0 < excess m" by (simp add: excess.simps [of m])
  from excess_lower [OF pos] show "2 ^ 52 \<le> m div 2 ^ excess m"
    by (intro div_lower) simp_all
  from excess_upper [of m] show "m div 2 ^ excess m < 2 ^ 53"
    by (intro div_upper) simp_all
qed

lemma roundMagnitude_small: "m < 2 ^ 53 \<Longrightarrow> roundMagnitude m = m"
  by (simp add: roundMagnitude_def excess_small)

lemma roundMagnitude_multiple:
  assumes "0 < e" and "2 ^ 52 \<le> c" and "c < 2 ^ 53"
  shows "roundMagnitude (c * 2 ^ e) = c * 2 ^ e"
proof -
  have "2 ^ 52 * 2 ^ e \<le> c * (2::int) ^ e"
    using assms(2) by (intro mult_right_mono) simp_all
  moreover have "c * (2::int) ^ e < 2 ^ 53 * 2 ^ e"
    using assms(3) by (intro mult_strict_right_mono) simp_all
  ultimately have "excess (c * 2 ^ e) = e"
    using assms(1) by (intro excess_unique)
  then show ?thesis by (simp add: roundMagnitude_def)
qed

lemma roundMagnitude_form:
  assumes "2 ^ 53 \<le> m"
  obtains c where "roundMagnitude m = c * 2 ^ excess m" and "2 ^ 52 \<le> c" and "c \<le> 2 ^ 53"
proof -
  let ?q = "m div 2 ^ excess m"
  from excess_large [OF assms] have q: "2 ^ 52 \<le> ?q" "?q < 2 ^ 53" by auto
  have "roundMagnitude m = ?q * 2 ^ excess m \<or> roundMagnitude m = (?q + 1) * 2 ^ excess m"
    by (simp add: roundMagnitude_def Let_def)
  then show ?thesis
  proof
    assume "roundMagnitude m = ?q * 2 ^ excess m"
    with q show ?thesis by (intro that [of ?q]) simp_all
  next
    assume "roundMagnitude m = (?q + 1) * 2 ^ excess m"
    with q show ?thesis by (intro that [of "?q + 1"]) simp_all
  qed
qed

lemma roundMagnitude_idem: "roundMagnitude (roundMagnitude m) = roundMagnitude m"
proof (cases "m < 2 ^ 53")
  case True
  then show ?thesis by (simp add: roundMagnitude_small)
next
  case False
  then have big: "2 ^ 53 \<le> m" by simp
  from excess_large(1) [OF big] have e: "0 < excess m" .
  from roundMagnitude_form [OF big] obtain c
    where c: "roundMagnitude m = c * 2 ^ excess m" "2 ^ 52 \<le> c" "c \<le> 2 ^ 53" by blast
  show ?thesis
  proof (cases "c < 2 ^ 53")
    case True
    with e c show ?thesis by (simp add: roundMagnitude_multiple)
  next
    case False
    with c(3) have "c = 2 ^ 53" by simp
    then have "roundMagnitude m = 2 ^ 52 * 2 ^ Suc (excess m)" using c(1) by simp
    moreover have "roundMagnitude (2 ^ 52 * 2 ^ Suc (excess m)) = 2 ^ 52 * 2 ^ Suc (excess m)"
      by (intro roundMagnitude_multiple) simp_all
    ultimately show ?thesis by simp
  qed
qed

lemma fixed_multiple:
  assumes "2 ^ 53 \<le> z" and "roundMagnitude z = z"
  obtains k where "z = k * 2 ^ excess z"
  using roundMagnitude_form [OF assms(1)] assms(2) by metis

lemma no_Number_between:
  assumes e: "0 < e" and q: "2 ^ 52 \<le> q" "q < 2 ^ 53"
    and z: "q * 2 ^ e < z" "z < (q + 1) * 2 ^ e"
  shows "roundMagnitude z \<noteq> z"
proof
  assume fixed: "roundMagnitude z = z"
  have lo: "2 ^ 52 * 2 ^ e \<le> q * (2::int) ^ e"
    using q(1) by (intro mult_right_mono) simp_all
  have hi: "(q + 1) * (2::int) ^ e \<le> 2 ^ 53 * 2 ^ e"
    using q(2) by (intro mult_right_mono) simp_all
  have "2 ^ 52 * 2 ^ e \<le> z" using lo z(1) by linarith
  moreover have "z < 2 ^ 53 * 2 ^ e" using hi z(2) by linarith
  ultimately have "excess z = e" by (rule excess_unique [OF e])
  moreover have "(2::int) ^ 53 \<le> 2 ^ 52 * 2 ^ e"
    using e by (cases e) simp_all
  with lo z(1) have "2 ^ 53 \<le> z" by linarith
  ultimately obtain k where k: "z = k * 2 ^ e"
    using fixed_multiple [OF _ fixed] by metis
  from z(1) have "q < k" unfolding k by (simp add: mult_less_cancel_right)
  moreover from z(2) have "k < q + 1" unfolding k by (simp add: mult_less_cancel_right)
  ultimately show False by simp
qed

lemma roundMagnitude_nearest:
  assumes "0 \<le> z" and fixed: "roundMagnitude z = z"
  shows "\<bar>m - roundMagnitude m\<bar> \<le> \<bar>m - z\<bar>"
proof (cases "m < 2 ^ 53")
  case True
  then show ?thesis by (simp add: roundMagnitude_small)
next
  case False
  then have big: "2 ^ 53 \<le> m" by simp
  define P :: int where "P = 2 ^ excess m"
  define q where "q = m div P"
  define r where "r = m mod P"
  have P: "0 < P" by (simp add: P_def)
  from excess_large [OF big] have e: "0 < excess m" and qb: "2 ^ 52 \<le> q" "q < 2 ^ 53"
    by (simp_all add: q_def P_def)
  have r: "0 \<le> r" "r < P" using P by (simp_all add: r_def)
  define lo where "lo = q * P"
  have m: "m = lo + r" by (simp add: lo_def q_def r_def)
  have R: "roundMagnitude m = (if 2 * r > P \<or> (2 * r = P \<and> odd q) then lo + P else lo)"
    by (simp add: roundMagnitude_def Let_def P_def q_def r_def lo_def algebra_simps)
  have out: "z \<le> lo \<or> lo + P \<le> z"
  proof (rule ccontr)
    assume "\<not> (z \<le> lo \<or> lo + P \<le> z)"
    then have "q * 2 ^ excess m < z" "z < (q + 1) * 2 ^ excess m"
      by (simp_all add: P_def lo_def algebra_simps)
    with no_Number_between [OF e qb] fixed show False by blast
  qed
  show ?thesis
  proof (cases "2 * r > P \<or> (2 * r = P \<and> odd q)")
    case True
    then have "P \<le> 2 * r" by auto
    moreover have "roundMagnitude m = lo + P" unfolding R using True by (rule if_P)
    ultimately show ?thesis using m r out by linarith
  next
    case False
    then have "2 * r \<le> P" by auto
    moreover have "roundMagnitude m = lo" unfolding R using False by (rule if_not_P)
    ultimately show ?thesis using m r out by linarith
  qed
qed

lemma roundMagnitude_nonneg: "0 \<le> m \<Longrightarrow> 0 \<le> roundMagnitude m"
  using roundMagnitude_nearest [of 0 m] by (simp add: roundMagnitude_small)

lemma roundToNumber_neg: "roundToNumber (- x) = - roundToNumber x"
  by (simp add: roundToNumber_def roundMagnitude_small)

lemma roundToNumber_idem: "roundToNumber (roundToNumber x) = roundToNumber x"
proof (cases "x < 0")
  case True
  then have "0 \<le> roundMagnitude (- x)" by (intro roundMagnitude_nonneg) simp
  then show ?thesis
    using True by (auto simp: roundToNumber_def roundMagnitude_idem roundMagnitude_small)
next
  case False
  then have "0 \<le> roundMagnitude x" by (intro roundMagnitude_nonneg) simp
  then show ?thesis
    using False by (simp add: roundToNumber_def roundMagnitude_idem)
qed

lemma roundToNumber_exact: "\<bar>x\<bar> \<le> 2 ^ 53 \<Longrightarrow> roundToNumber x = x"
proof -
  have top: "roundMagnitude 9007199254740992 = 9007199254740992"
    using roundMagnitude_multiple [of 1 "2 ^ 52"] by simp
  assume "\<bar>x\<bar> \<le> 2 ^ 53"
  then consider "x = 2 ^ 53" | "x = - (2 ^ 53)" | "\<bar>x\<bar> < 2 ^ 53" by linarith
  then show ?thesis
  proof cases
    case 1 then show ?thesis by (simp add: roundToNumber_def top)
  next
    case 2 then show ?thesis by (simp add: roundToNumber_def top)
  next
    case 3 then show ?thesis by (simp add: roundToNumber_def roundMagnitude_small)
  qed
qed

lemma roundToNumber_nearest:
  assumes "roundToNumber z = z"
  shows "\<bar>x - roundToNumber x\<bar> \<le> \<bar>x - z\<bar>"
proof -
  have nonneg: "\<bar>m - roundMagnitude m\<bar> \<le> \<bar>m - w\<bar>"
    if "0 \<le> m" and "roundToNumber w = w" for m w
  proof (cases "0 \<le> w")
    case True
    with that(2) have "roundMagnitude w = w" by (simp add: roundToNumber_def)
    with True show ?thesis by (rule roundMagnitude_nearest)
  next
    case False
    have "\<bar>m - roundMagnitude m\<bar> \<le> \<bar>m - 0\<bar>"
      by (rule roundMagnitude_nearest) (simp_all add: roundMagnitude_small)
    with False that(1) show ?thesis by simp
  qed
  show ?thesis
  proof (cases "x < 0")
    case False
    with nonneg [of x z] assms show ?thesis by (simp add: roundToNumber_def)
  next
    case True
    have "roundToNumber (- z) = - z" using assms by (simp add: roundToNumber_neg)
    with nonneg [of "- x" "- z"] True have "\<bar>- x - roundMagnitude (- x)\<bar> \<le> \<bar>- x - - z\<bar>"
      by simp
    with True show ?thesis by (simp add: roundToNumber_def)
  qed
qed

lemma roundToNumber_mono: "x \<le> y \<Longrightarrow> roundToNumber x \<le> roundToNumber y"
proof (rule ccontr)
  assume xy: "x \<le> y" and "\<not> roundToNumber x \<le> roundToNumber y"
  then have lt: "roundToNumber y < roundToNumber x" by simp
  have "\<bar>x - roundToNumber x\<bar> \<le> \<bar>x - roundToNumber y\<bar>"
    by (rule roundToNumber_nearest) (rule roundToNumber_idem)
  moreover have "\<bar>y - roundToNumber y\<bar> \<le> \<bar>y - roundToNumber x\<bar>"
    by (rule roundToNumber_nearest) (rule roundToNumber_idem)
  ultimately have "x = y" using xy lt by linarith
  with lt show False by simp
qed

subsection \<open>The type of Numbers\<close>

text \<open>
  A Number is an integer that the rounding leaves unchanged; \<open>valueOf\<close> is its value.
  \<open>toNumber\<close> is the Number of an integer (of a length), \<open>addNumber\<close> is \<^verbatim>\<open>+\<close> and
  \<open>subNumber\<close> is \<^verbatim>\<open>-\<close>; \<^verbatim>\<open>>\<close> compares the values.
\<close>

typedef number = "{x :: int. roundToNumber x = x}"
  morphisms valueOf Number
  by (rule exI [of _ 0]) (simp add: roundToNumber_exact)

definition toNumber :: "int \<Rightarrow> number" where
  "toNumber x = Number (roundToNumber x)"

definition addNumber :: "number \<Rightarrow> number \<Rightarrow> number" where
  "addNumber a b = Number (roundToNumber (valueOf a + valueOf b))"

definition subNumber :: "number \<Rightarrow> number \<Rightarrow> number" where
  "subNumber a b = Number (roundToNumber (valueOf a - valueOf b))"

lemma number_abstype [code abstype]: "Number (valueOf x) = x"
  by (rule valueOf_inverse)

lemma valueOf_toNumber [simp, code abstract]: "valueOf (toNumber x) = roundToNumber x"
  by (simp add: toNumber_def Number_inverse roundToNumber_idem)

lemma valueOf_addNumber [simp, code abstract]:
  "valueOf (addNumber a b) = roundToNumber (valueOf a + valueOf b)"
  by (simp add: addNumber_def Number_inverse roundToNumber_idem)

lemma valueOf_subNumber [simp, code abstract]:
  "valueOf (subNumber a b) = roundToNumber (valueOf a - valueOf b)"
  by (simp add: subNumber_def Number_inverse roundToNumber_idem)

section \<open>processPullRequestDiff\<close>

record tokenLimits =
  runningTokenCount :: number
  tokensRemaining :: number

record estimatedFileDiff = fileDiff +
  estimatedTokenCount :: nat

record accurateFileDiff = estimatedFileDiff +
  tokenCount :: nat

text \<open>
  \<^verbatim>\<open>Math.ceil(diffContent.length / 3.5)\<close>. The quotient is \<open>2 * length / 7\<close>; a quotient
  that is not an integer lies at least \<open>1/7\<close> from the nearest integer, far more than the
  rounding error of the floating-point division for any string length, so the ceiling
  is the integer ceiling of \<open>2 * length / 7\<close>.
\<close>

definition estimateTokens :: "jsstring \<Rightarrow> nat" where
  "estimateTokens s = (2 * length s + 6) div 7"

text \<open>
  \<^verbatim>\<open>estimatedFileDiffStats\<close> after \<^verbatim>\<open>sort((a, b) => a.estimatedTokenCount - b.estimatedTokenCount)\<close>.
  \<^verbatim>\<open>Array.prototype.sort\<close> is stable, as \<open>sort_key\<close> is: files of equal estimate keep their
  order.
\<close>

definition estimatedFileDiffStats :: "fileDiff list \<Rightarrow> estimatedFileDiff list" where
  "estimatedFileDiffStats essentialFileDiffs =
     sort_key estimatedTokenCount
       (map (\<lambda>f. \<lparr>filename = filename f, diffContent = diffContent f,
                   estimatedTokenCount = estimateTokens (diffContent f)\<rparr>)
          essentialFileDiffs)"

text \<open>The \<^verbatim>\<open>for (const file of estimatedFileDiffStats)\<close> loop; the result is \<^verbatim>\<open>includedFileDiffs\<close>.\<close>

fun includeLoop :: "number \<Rightarrow> number \<Rightarrow> estimatedFileDiff list \<Rightarrow> estimatedFileDiff list" where
  "includeLoop remaining currentTokenCount [] = []"
| "includeLoop remaining currentTokenCount (file # files) =
     (if valueOf (addNumber currentTokenCount (toNumber (int (estimatedTokenCount file))))
           > valueOf remaining
      then includeLoop remaining currentTokenCount files
      else file # includeLoop remaining
                    (addNumber currentTokenCount (toNumber (int (estimatedTokenCount file)))) files)"

definition includedFileDiffs :: "tokenLimits \<Rightarrow> fileDiff list \<Rightarrow> estimatedFileDiff list" where
  "includedFileDiffs limits essentialFileDiffs =
     includeLoop (tokensRemaining limits) (runningTokenCount limits)
       (estimatedFileDiffStats essentialFileDiffs)"

text \<open>
  \<^verbatim>\<open>accurateFileDiffStats\<close>: the exact count is the length of the token array that the
  tokenizer \<open>encode\<close> (gpt-tokenizer, a parameter) returns for the file's content.
\<close>

definition accurateFileDiffStats ::
  "(jsstring \<Rightarrow> nat list) \<Rightarrow> tokenLimits \<Rightarrow> fileDiff list \<Rightarrow> accurateFileDiff list" where
  "accurateFileDiffStats encode limits essentialFileDiffs =
     map (\<lambda>file. \<lparr>filename = filename file, diffContent = diffContent file,
                    estimatedTokenCount = estimatedTokenCount file,
                    tokenCount = length (encode (diffContent file))\<rparr>)
       (includedFileDiffs limits essentialFileDiffs)"

text \<open>\<^verbatim>\<open>accurateFileDiffStats.reduce((sum, file) => sum + file.tokenCount, runningTokenCount)\<close>.\<close>

definition accurateTotal :: "number \<Rightarrow> accurateFileDiff list \<Rightarrow> number" where
  "accurateTotal running files =
     foldl (\<lambda>sum file. addNumber sum (toNumber (int (tokenCount file)))) running files"

text \<open>
  The \<^verbatim>\<open>while (currentTokenCount > tokensRemaining && accurateFileDiffStats.length > 0)\<close>
  loop, which pops the last file; the result is the array once the loop has ended.
\<close>

function evictLoop :: "number \<Rightarrow> number \<Rightarrow> accurateFileDiff list \<Rightarrow> accurateFileDiff list" where
  "evictLoop remaining currentTokenCount files =
     (if valueOf currentTokenCount > valueOf remaining \<and> length files > 0
      then evictLoop remaining
             (subNumber currentTokenCount (toNumber (int (tokenCount (last files)))))
             (butlast files)
      else files)"
  by pat_completeness auto
termination
  by (relation "measure (\<lambda>(remaining, currentTokenCount, files). length files)") auto

declare evictLoop.simps [simp del]

text \<open>The files still in \<^verbatim>\<open>accurateFileDiffStats\<close> after the eviction loop.\<close>

definition survivingFileDiffs ::
  "(jsstring \<Rightarrow> nat list) \<Rightarrow> tokenLimits \<Rightarrow> fileDiff list \<Rightarrow> accurateFileDiff list" where
  "survivingFileDiffs encode limits essentialFileDiffs =
     evictLoop (tokensRemaining limits)
       (accurateTotal (runningTokenCount limits)
          (accurateFileDiffStats encode limits essentialFileDiffs))
       (accurateFileDiffStats encode limits essentialFileDiffs)"

text \<open>
  The body of \<^verbatim>\<open>processPullRequestDiff\<close> from the estimate on (the spec's
  BudgetAllocator), as a function of \<^verbatim>\<open>essentialFileDiffs\<close>. \<open>None\<close> is \<^verbatim>\<open>{ diff: null }\<close>.
\<close>

definition budgetAllocator ::
  "(jsstring \<Rightarrow> nat list) \<Rightarrow> tokenLimits \<Rightarrow> fileDiff list \<Rightarrow> jsstring option" where
  "budgetAllocator encode limits essentialFileDiffs =
     (if length (includedFileDiffs limits essentialFileDiffs) = 0 then None
      else if length (survivingFileDiffs encode limits essentialFileDiffs) = 0 then None
      else Some (join (js ''\<newline>'')
                  (map diffContent (survivingFileDiffs encode limits essentialFileDiffs))))"

definition processPullRequestDiff ::
  "(jsstring \<Rightarrow> jsstring) \<Rightarrow> (jsstring \<Rightarrow> nat list) \<Rightarrow> jsstring \<Rightarrow> tokenLimits \<Rightarrow> jsstring option" where
  "processPullRequestDiff toLowerCase encode diff limits =
     budgetAllocator encode limits
       (filter (\<lambda>f. isEssentialFile toLowerCase (filename f)) (parsePerFileDiffs diff))"

section \<open>fetchPullRequestComments\<close>

text \<open>
  The fields of \<^verbatim>\<open>PullRequestGraphQlResponse\<close> that the function reads. A \<^verbatim>\<open>nodes\<close> array
  that the code tests before it iterates is an option (\<open>None\<close> for null or undefined).
\<close>

record author =
  login :: jsstring
  type :: jsstring

record commentNode =
  commentId :: jsstring
  commentBody :: jsstring
  commentAuthor :: author

record reviewNode =
  reviewComments :: "commentNode list"

record pageInfo =
  hasNextPage :: bool
  endCursor :: "jsstring option"

record issueNode =
  issueNumber :: int
  issueUrl :: jsstring
  issueBody :: jsstring
  repositoryOwnerLogin :: jsstring
  repositoryName :: jsstring

record pullRequestData =
  closingIssuesReferences :: "issueNode list option"
  reviewsPageInfo :: pageInfo
  reviewsNodes :: "reviewNode list option"
  commentsPageInfo :: pageInfo
  commentsNodes :: "commentNode list option"

text \<open>\<^verbatim>\<open>SimplifiedComment\<close> and \<^verbatim>\<open>PullRequestLinkedIssue\<close>, the elements of the result.\<close>

record simplifiedComment =
  body :: jsstring
  user :: author
  id' :: jsstring
  org :: jsstring
  repo :: jsstring
  pullUrl :: jsstring

record pullRequestLinkedIssue =
  number :: int
  owner :: jsstring
  linkedRepo :: jsstring
  url :: jsstring
  linkedBody :: jsstring

text \<open>The fields \<^verbatim>\<open>owner\<close>, \<^verbatim>\<open>repo\<close> and \<^verbatim>\<open>issueNum\<close> of \<^verbatim>\<open>FetchParams\<close>, each of which may be undefined.\<close>

record fetchParams =
  paramOwner :: "jsstring option"
  paramRepo :: "jsstring option"
  paramIssueNum :: "nat option"

text \<open>\<^verbatim>\<open>${x}\<close> in a template literal and \<^verbatim>\<open>x || ""\<close>, for a string that may be undefined.\<close>

definition template :: "jsstring option \<Rightarrow> jsstring" where
  "template x = (case x of None \<Rightarrow> js ''undefined'' | Some s \<Rightarrow> s)"

definition orEmpty :: "jsstring option \<Rightarrow> jsstring" where
  "orEmpty x = (case x of None \<Rightarrow> [] | Some s \<Rightarrow> s)"

text \<open>
  The object pushed to \<^verbatim>\<open>allComments\<close> for a comment node. The template literal prints
  \<^verbatim>\<open>issueNum\<close> with the conversion of a Number to a string, the parameter \<open>numberToString\<close>.
\<close>

definition toSimplifiedComment ::
  "(nat \<Rightarrow> jsstring) \<Rightarrow> fetchParams \<Rightarrow> commentNode \<Rightarrow> simplifiedComment" where
  "toSimplifiedComment numberToString params comment =
     \<lparr>body = commentBody comment,
      user = \<lparr>login = login (commentAuthor comment), type = type (commentAuthor comment)\<rparr>,
      id' = commentId comment,
      org = orEmpty (paramOwner params),
      repo = orEmpty (paramRepo params),
      pullUrl = js ''https://github.com/'' @ template (paramOwner params) @ js ''/''
                @ template (paramRepo params) @ js ''/pull/''
                @ (case paramIssueNum params of None \<Rightarrow> js ''undefined''
                   | Some n \<Rightarrow> numberToString n)\<rparr>"

text \<open>The inner loop over comment nodes, with its test \<^verbatim>\<open>comment.author.type !== "Bot"\<close>.\<close>

definition pushComments ::
  "(nat \<Rightarrow> jsstring) \<Rightarrow> fetchParams \<Rightarrow> commentNode list \<Rightarrow> simplifiedComment list" where
  "pushComments numberToString params nodes =
     map (toSimplifiedComment numberToString params)
       (filter (\<lambda>comment. type (commentAuthor comment) \<noteq> js ''Bot'') nodes)"

definition toLinkedIssue :: "issueNode \<Rightarrow> pullRequestLinkedIssue" where
  "toLinkedIssue issue =
     \<lparr>number = issueNumber issue, owner = repositoryOwnerLogin issue,
      linkedRepo = repositoryName issue, url = issueUrl issue, linkedBody = issueBody issue\<rparr>"

text \<open>Truthiness of a cursor of type \<^verbatim>\<open>string | null\<close>: neither null nor the empty string.\<close>

definition truthy :: "jsstring option \<Rightarrow> bool" where
  "truthy c = (case c of None \<Rightarrow> False | Some s \<Rightarrow> s \<noteq> [])"

record fetchState =
  allComments :: "simplifiedComment list"
  linkedIssues :: "pullRequestLinkedIssue list"
  hasMoreComments :: bool
  hasMoreReviews :: bool
  commentsEndCursor :: "jsstring option"
  reviewsEndCursor :: "jsstring option"
  pageCount :: nat

definition initialState :: fetchState where
  "initialState =
     \<lparr>allComments = [], linkedIssues = [], hasMoreComments = True, hasMoreReviews = True,
      commentsEndCursor = None, reviewsEndCursor = None, pageCount = 0\<rparr>"

definition MAX_PAGES :: nat where
  "MAX_PAGES = 100"

text \<open>The loop body after the query has returned \<open>prData\<close>, up to the update of the cursors.\<close>

definition processPage ::
  "(nat \<Rightarrow> jsstring) \<Rightarrow> fetchParams \<Rightarrow> fetchState \<Rightarrow> pullRequestData \<Rightarrow> fetchState" where
  "processPage numberToString params st prData =
     st\<lparr>allComments :=
          allComments st
          @ (case commentsNodes prData of None \<Rightarrow> []
             | Some nodes \<Rightarrow> pushComments numberToString params nodes)
          @ (case reviewsNodes prData of None \<Rightarrow> []
             | Some reviews \<Rightarrow> concat (map (\<lambda>review. pushComments numberToString params (reviewComments review)) reviews)),
        linkedIssues :=
          linkedIssues st
          @ (if \<not> truthy (commentsEndCursor st) \<and> \<not> truthy (reviewsEndCursor st)
             then (case closingIssuesReferences prData of None \<Rightarrow> []
                   | Some issues \<Rightarrow> map toLinkedIssue issues)
             else []),
        hasMoreComments := hasNextPage (commentsPageInfo prData),
        hasMoreReviews := hasNextPage (reviewsPageInfo prData),
        commentsEndCursor := endCursor (commentsPageInfo prData),
        reviewsEndCursor := endCursor (reviewsPageInfo prData)\<rparr>"

lemma pageCount_processPage: "pageCount (processPage numberToString params st prData) = pageCount st"
  by (simp add: processPage_def)

text \<open>
  The \<^verbatim>\<open>while (hasMoreComments || hasMoreReviews)\<close> loop. The transport \<open>graphql\<close> stands
  for \<^verbatim>\<open>octokit.graphql\<close> on the query of the source: it is given the number of the call
  (the upstream may answer each call differently) and the variables \<^verbatim>\<open>commentsAfter\<close> and
  \<^verbatim>\<open>reviewsAfter\<close>, and returns the response or \<open>Inl\<close> of what it throws. An exception
  leaves the loop at once.
\<close>

function fetchLoop ::
  "(nat \<Rightarrow> jsstring)
   \<Rightarrow> (nat \<Rightarrow> jsstring option \<Rightarrow> jsstring option \<Rightarrow> 'e + pullRequestData)
   \<Rightarrow> fetchParams \<Rightarrow> fetchState \<Rightarrow> 'e + fetchState" where
  "fetchLoop numberToString graphql params st =
     (if \<not> (hasMoreComments st \<or> hasMoreReviews st) then Inr st
      else if pageCount st \<ge> MAX_PAGES then Inr st
      else case graphql (pageCount st + 1) (commentsEndCursor st) (reviewsEndCursor st) of
             Inl e \<Rightarrow> Inl e
           | Inr prData \<Rightarrow>
               if \<not> hasMoreComments (processPage numberToString params (st\<lparr>pageCount := pageCount st + 1\<rparr>) prData)
                  \<and> \<not> hasMoreReviews (processPage numberToString params (st\<lparr>pageCount := pageCount st + 1\<rparr>) prData)
               then Inr (processPage numberToString params (st\<lparr>pageCount := pageCount st + 1\<rparr>) prData)
               else fetchLoop numberToString graphql params
                      (processPage numberToString params (st\<lparr>pageCount := pageCount st + 1\<rparr>) prData))"
  by pat_completeness auto
termination
  by (relation "measure (\<lambda>(numberToString, graphql, params, st). MAX_PAGES - pageCount st)")
     (auto simp: pageCount_processPage)

declare fetchLoop.simps [simp del]

text \<open>
  \<^verbatim>\<open>fetchPullRequestComments\<close>: the pair is \<^verbatim>\<open>{ comments, linkedIssues }\<close>; the \<^verbatim>\<open>catch\<close> block
  returns two empty arrays.
\<close>

definition fetchPullRequestComments ::
  "(nat \<Rightarrow> jsstring)
   \<Rightarrow> (nat \<Rightarrow> jsstring option \<Rightarrow> jsstring option \<Rightarrow> 'e + pullRequestData)
   \<Rightarrow> fetchParams \<Rightarrow> simplifiedComment list \<times> pullRequestLinkedIssue list" where
  "fetchPullRequestComments numberToString graphql params =
     (case fetchLoop numberToString graphql params initialState of
        Inl e \<Rightarrow> ([], [])
      | Inr st \<Rightarrow> (allComments st, linkedIssues st))"

section \<open>Concrete inputs\<close>

text \<open>A tokenizer that returns one token for each code unit, to evaluate concrete inputs.\<close>

definition tokenPerCodeUnit :: "jsstring \<Rightarrow> nat list" where
  "tokenPerCodeUnit s = map unat s"

definition twoFiles :: "fileDiff list" where
  "twoFiles =
     [\<lparr>filename = js ''a'', diffContent = js ''diff --git a/a b/a''\<rparr>,
      \<lparr>filename = js ''b'', diffContent = js ''diff --git a/b b/b''\<rparr>]"

definition budget20 :: tokenLimits where
  "budget20 = \<lparr>runningTokenCount = toNumber 0, tokensRemaining = toNumber 20\<rparr>"

definition overdrawn :: tokenLimits where
  "overdrawn = \<lparr>runningTokenCount = toNumber 5, tokensRemaining = toNumber 3\<rparr>"

text \<open>
  Limits of \<open>2 ^ 60\<close>, where the Numbers are the multiples of 256, with one candidate file.
\<close>

definition oneFile :: "fileDiff list" where
  "oneFile = [\<lparr>filename = js ''a'', diffContent = js ''diff --git a/a b/a''\<rparr>]"

definition budgetTwoTo60 :: tokenLimits where
  "budgetTwoTo60 = \<lparr>runningTokenCount = toNumber (2 ^ 60), tokensRemaining = toNumber (2 ^ 60)\<rparr>"

text \<open>
  Four candidate files with the estimates 6, 7, 8 and 9, a tokenizer that counts 8, 24,
  11 and 8 tokens for them, and limits of \<open>2 ^ 56\<close>, where the Numbers are the multiples
  of 16.
\<close>

definition fourFiles :: "fileDiff list" where
  "fourFiles =
     [\<lparr>filename = js ''a'', diffContent = js ''diff --git a/a b/a''\<rparr>,
      \<lparr>filename = js ''b.ts'', diffContent = js ''diff --git a/b.ts b/b.ts''\<rparr>,
      \<lparr>filename = js ''cc.ts'', diffContent = js ''diff --git a/cc.ts b/cc.ts''\<rparr>,
      \<lparr>filename = js ''dddd.ts'', diffContent = js ''diff --git a/dddd.ts b/dddd.ts''\<rparr>]"

definition tableTokenizer :: "jsstring \<Rightarrow> nat list" where
  "tableTokenizer s =
     replicate (if s = js ''diff --git a/b.ts b/b.ts'' then 24
                else if s = js ''diff --git a/cc.ts b/cc.ts'' then 11 else 8) 0"

definition budgetTwoTo56 :: tokenLimits where
  "budgetTwoTo56 = \<lparr>runningTokenCount = toNumber (2 ^ 56), tokensRemaining = toNumber (2 ^ 56)\<rparr>"

text \<open>
  The contents of the surviving files in the order in which the files stand in the
  list \<open>fs\<close> (the order of the source diff).
\<close>

definition inOriginalOrder :: "fileDiff list \<Rightarrow> jsstring list \<Rightarrow> jsstring list" where
  "inOriginalOrder fs contents = filter (\<lambda>c. c \<in> set contents) (map diffContent fs)"

definition bigThenSmall :: jsstring where
  "bigThenSmall = js ''diff --git a/b.ts b/b.ts\<newline>+long line\<newline>diff --git a/a.ts b/a.ts\<newline>+x''"

definition budget1000 :: tokenLimits where
  "budget1000 = \<lparr>runningTokenCount = toNumber 0, tokensRemaining = toNumber 1000\<rparr>"

text \<open>Pages and transports for concrete runs of the pagination loop.\<close>

definition userComment :: commentNode where
  "userComment = \<lparr>commentId = js ''c1'', commentBody = js ''hello'',
                   commentAuthor = \<lparr>login = js ''alice'', type = js ''User''\<rparr>\<rparr>"

definition botComment :: commentNode where
  "botComment = \<lparr>commentId = js ''c2'', commentBody = js ''beep'',
                  commentAuthor = \<lparr>login = js ''ci'', type = js ''Bot''\<rparr>\<rparr>"

definition issue7 :: issueNode where
  "issue7 = \<lparr>issueNumber = 7, issueUrl = js ''u'', issueBody = js ''b'',
              repositoryOwnerLogin = js ''o'', repositoryName = js ''r''\<rparr>"

definition pageMore :: pullRequestData where
  "pageMore =
     \<lparr>closingIssuesReferences = Some [issue7],
      reviewsPageInfo = \<lparr>hasNextPage = True, endCursor = Some (js ''r1'')\<rparr>,
      reviewsNodes = Some [\<lparr>reviewComments = [botComment, userComment]\<rparr>],
      commentsPageInfo = \<lparr>hasNextPage = True, endCursor = Some (js ''c1'')\<rparr>,
      commentsNodes = Some [userComment, botComment]\<rparr>"

definition pageLast :: pullRequestData where
  "pageLast =
     \<lparr>closingIssuesReferences = Some [issue7],
      reviewsPageInfo = \<lparr>hasNextPage = False, endCursor = None\<rparr>,
      reviewsNodes = Some [\<lparr>reviewComments = [botComment, userComment]\<rparr>],
      commentsPageInfo = \<lparr>hasNextPage = False, endCursor = None\<rparr>,
      commentsNodes = Some [userComment, botComment]\<rparr>"


definition twoPages :: "nat \<Rightarrow> jsstring option \<Rightarrow> jsstring option \<Rightarrow> jsstring + pullRequestData" where
  "twoPages n commentsAfter reviewsAfter = (if n = 1 then Inr pageMore else Inr pageLast)"

definition throwsAtSecond :: "nat \<Rightarrow> jsstring option \<Rightarrow> jsstring option \<Rightarrow> jsstring + pullRequestData" where
  "throwsAtSecond n commentsAfter reviewsAfter = (if n = 2 then Inl (js ''timeout'') else Inr pageMore)"

definition params1 :: fetchParams where
  "params1 = \<lparr>paramOwner = Some (js ''o''), paramRepo = Some (js ''r''), paramIssueNum = Some 1\<rparr>"

text \<open>
  The decimal digits of a natural number, which is what \<^verbatim>\<open>Number::toString\<close> prints for
  an integer below \<open>10 ^ 21\<close>; the conversion used for the concrete runs.
\<close>

function decimalDigits :: "nat \<Rightarrow> jsstring" where
  "decimalDigits n =
     (if n < 10 then [of_nat (48 + n)]
      else decimalDigits (n div 10) @ [of_nat (48 + n mod 10)])"
  by pat_completeness auto
termination
  by (relation "measure (\<lambda>n. n)") auto

declare decimalDigits.simps [simp del]

text \<open>
  The cursors that the loop holds after it has processed the pages \<open>page 1\<close>, ...,
  \<open>page n\<close>: both null before the first page, the \<^verbatim>\<open>endCursor\<close>s of \<open>page n\<close> after it.
\<close>

definition cursorsAfter :: "(nat \<Rightarrow> pullRequestData) \<Rightarrow> nat \<Rightarrow> jsstring option \<times> jsstring option" where
  "cursorsAfter page n =
     (if n = 0 then (None, None)
      else (endCursor (commentsPageInfo (page n)), endCursor (reviewsPageInfo (page n))))"

section \<open>Pages received\<close>






section \<open>Header lines and segments\<close>

text \<open>
  The successive results of \<^verbatim>\<open>diffPattern.exec(diff)\<close> from the pattern's \<^verbatim>\<open>lastIndex\<close>
  \<open>re\<close> on, until it returns null.
\<close>

function matchesFrom :: "jsstring \<Rightarrow> nat \<Rightarrow> regExpExecArray list" where
  "matchesFrom diff re =
     (case exec diff re of None \<Rightarrow> [] | Some m \<Rightarrow> m # matchesFrom diff (lastIndex m))"
  by pat_completeness auto
termination
  by (relation "measure (\<lambda>(diff, re). length diff - re)") (auto dest!: exec_progress)

declare matchesFrom.simps [simp del]

text \<open>
  The segments that belong to a list of matches: each runs from the index of its match
  to the index of the next match, the last one to the end of the input, and is trimmed.
\<close>

fun segmentsOf :: "jsstring \<Rightarrow> regExpExecArray list \<Rightarrow> fileDiff list" where
  "segmentsOf diff [] = []"
| "segmentsOf diff [m] =
     [\<lparr>filename = group1 m, diffContent = trim (substring diff (index m) (length diff))\<rparr>]"
| "segmentsOf diff (m # m' # ms) =
     \<lparr>filename = group1 m, diffContent = trim (substring diff (index m) (index m'))\<rparr>
     # segmentsOf diff (m' # ms)"

text \<open>The state of the parse loop after it has consumed a list of matches.\<close>

fun loopResult :: "jsstring \<Rightarrow> nat \<Rightarrow> fileDiff list \<Rightarrow> regExpExecArray list \<Rightarrow> fileDiff list \<times> nat" where
  "loopResult diff li acc [] = (acc, li)"
| "loopResult diff li acc (m # ms) =
     loopResult diff (index m)
       ((if length acc > 0 then setLastContent acc (trim (substring diff li (index m))) else acc)
        @ [\<lparr>filename = group1 m, diffContent = []\<rparr>]) ms"

text \<open>The statement after the loop, which sets the content of the last file.\<close>

definition finish :: "jsstring \<Rightarrow> fileDiff list \<times> nat \<Rightarrow> fileDiff list" where
  "finish diff r =
     (case r of (perFileDiffs, li) \<Rightarrow>
        if length perFileDiffs > 0 \<and> li < length diff
        then setLastContent perFileDiffs (trim (substring diff li (length diff)))
        else perFileDiffs)"

text \<open>The number of indices of the input at which the pattern matches.\<close>

definition headerCount :: "jsstring \<Rightarrow> nat" where
  "headerCount diff = length (filter (\<lambda>i. matchAt diff i \<noteq> None) [0..<Suc (length diff)])"

text \<open>
  The lines of the input, which is split at every LineTerminator, and the number of
  occurrences of the header line \<^verbatim>\<open>diff --git a/<path> b/<path>\<close> among them.
\<close>

function splitLines :: "jsstring \<Rightarrow> jsstring list" where
  "splitLines s =
     (case dropWhile (\<lambda>c. \<not> isLineTerminator c) s of
        [] \<Rightarrow> [takeWhile (\<lambda>c. \<not> isLineTerminator c) s]
      | c # rest \<Rightarrow> takeWhile (\<lambda>c. \<not> isLineTerminator c) s # splitLines rest)"
  by pat_completeness auto
termination
proof (relation "measure length")
  fix s :: jsstring and c rest
  assume "dropWhile (\<lambda>c. \<not> isLineTerminator c) s = c # rest"
  then have "length (c # rest) \<le> length s"
    by (metis length_dropWhile_le)
  then show "(rest, s) \<in> measure length" by simp
qed simp

declare splitLines.simps [simp del]

definition isHeaderLine :: "jsstring \<Rightarrow> bool" where
  "isHeaderLine l =
     (prefix (js ''diff --git a/'') l \<and> lazyCapture (drop (length (js ''diff --git a/'')) l) \<noteq> None)"

definition headerLineCount :: "jsstring \<Rightarrow> nat" where
  "headerLineCount diff = length (filter isHeaderLine (splitLines diff))"

text \<open>The text before the first header line; the whole input when it has no header line.\<close>

definition preamble :: "jsstring \<Rightarrow> jsstring" where
  "preamble diff = (case exec diff 0 of None \<Rightarrow> diff | Some m \<Rightarrow> take (index m) diff)"

definition junkThenHeader :: jsstring where
  "junkThenHeader = js ''junk\<newline>diff --git a/x b/x''"

section \<open>Properties of the budget allocation\<close>

subsection \<open>The two loops on Numbers\<close>

lemma valueOf_fixed: "roundToNumber (valueOf a) = valueOf a"
  using valueOf [of a] by simp

lemma toNumber_nat_nonneg: "0 \<le> valueOf (toNumber (int n))"
proof -
  have "roundToNumber 0 \<le> roundToNumber (int n)" by (rule roundToNumber_mono) simp
  then show ?thesis by (simp add: roundToNumber_exact)
qed

lemma addNumber_ge: "valueOf cur \<le> valueOf (addNumber cur (toNumber (int n)))"
proof -
  have "roundToNumber (valueOf cur) \<le> roundToNumber (valueOf cur + valueOf (toNumber (int n)))"
    using toNumber_nat_nonneg [of n] by (intro roundToNumber_mono) simp
  then show ?thesis by (simp add: valueOf_fixed)
qed

lemma addNumber_mono:
  "m \<le> n \<Longrightarrow>
   valueOf (addNumber cur (toNumber (int m))) \<le> valueOf (addNumber cur (toNumber (int n)))"
  by (simp add: roundToNumber_mono)

lemma includeLoop_all_skipped:
  "\<forall>f\<in>set files. valueOf (addNumber cur (toNumber (int (estimatedTokenCount f)))) > valueOf remaining
   \<Longrightarrow> includeLoop remaining cur files = []"
  by (induction files) auto

lemma includeLoop_skip_rest:
  assumes "sorted (map estimatedTokenCount (f # files))"
    and "valueOf (addNumber cur (toNumber (int (estimatedTokenCount f)))) > valueOf remaining"
  shows "includeLoop remaining cur files = []"
proof (rule includeLoop_all_skipped, rule ballI)
  fix g assume "g \<in> set files"
  with assms(1) have "estimatedTokenCount f \<le> estimatedTokenCount g" by auto
  from addNumber_mono [OF this, of cur] assms(2)
  show "valueOf (addNumber cur (toNumber (int (estimatedTokenCount g)))) > valueOf remaining"
    by linarith
qed

lemma includeLoop_mono_prefix:
  "sorted (map estimatedTokenCount files) \<Longrightarrow> valueOf remaining \<le> valueOf remaining' \<Longrightarrow>
   prefix (includeLoop remaining cur files) (includeLoop remaining' cur files)"
proof (induction files arbitrary: cur)
  case Nil
  then show ?case by simp
next
  case (Cons f files)
  from Cons.prems have srt: "sorted (map estimatedTokenCount files)" by simp
  show ?case
  proof (cases "valueOf (addNumber cur (toNumber (int (estimatedTokenCount f)))) > valueOf remaining")
    case True
    with Cons.prems(1) have "includeLoop remaining cur files = []"
      by (rule includeLoop_skip_rest)
    with True show ?thesis by simp
  next
    case False
    with Cons.prems(2)
    have "\<not> valueOf (addNumber cur (toNumber (int (estimatedTokenCount f)))) > valueOf remaining'"
      by simp
    with False Cons.IH [OF srt Cons.prems(2)] show ?thesis by simp
  qed
qed

lemma includeLoop_prefix:
  "sorted (map estimatedTokenCount files) \<Longrightarrow> prefix (includeLoop remaining cur files) files"
proof (induction files arbitrary: cur)
  case Nil
  then show ?case by simp
next
  case (Cons f files)
  from Cons.prems have srt: "sorted (map estimatedTokenCount files)" by simp
  show ?case
  proof (cases "valueOf (addNumber cur (toNumber (int (estimatedTokenCount f)))) > valueOf remaining")
    case True
    with Cons.prems have "includeLoop remaining cur files = []"
      by (rule includeLoop_skip_rest)
    with True show ?thesis by simp
  next
    case False
    with Cons.IH [OF srt] show ?thesis by simp
  qed
qed

lemma includeLoop_over_budget:
  "valueOf remaining < valueOf cur \<Longrightarrow> includeLoop remaining cur files = []"
proof -
  assume over: "valueOf remaining < valueOf cur"
  have "valueOf (addNumber cur (toNumber (int n))) > valueOf remaining" for n
    using addNumber_ge [of cur n] over by linarith
  then show ?thesis by (intro includeLoop_all_skipped ballI)
qed

lemma sorted_estimatedFileDiffStats:
  "sorted (map estimatedTokenCount (estimatedFileDiffStats fs))"
  by (simp add: estimatedFileDiffStats_def)

lemma evictLoop_stop:
  "\<not> (valueOf cur > valueOf remaining \<and> length files > 0) \<Longrightarrow> evictLoop remaining cur files = files"
  by (subst evictLoop.simps) auto

lemma evictLoop_step:
  "valueOf cur > valueOf remaining \<Longrightarrow> files \<noteq> [] \<Longrightarrow>
   evictLoop remaining cur files =
   evictLoop remaining (subNumber cur (toNumber (int (tokenCount (last files))))) (butlast files)"
  by (subst evictLoop.simps) simp

lemma prefix_butlast:
  "prefix p files \<Longrightarrow> p \<noteq> files \<Longrightarrow> prefix p (butlast files)"
  by (auto simp: prefix_def butlast_append)

lemma evictLoop_prefix: "prefix (evictLoop remaining cur files) files"
proof (induction remaining cur files rule: evictLoop.induct)
  case (1 remaining cur files)
  show ?case
  proof (cases "valueOf cur > valueOf remaining \<and> length files > 0")
    case True
    from "1.IH" [OF True] have "prefix (evictLoop remaining cur files) (butlast files)"
      using True by (simp add: evictLoop_step)
    moreover have "prefix (butlast files) files" by (rule prefixeq_butlast)
    ultimately show ?thesis by (rule prefix_order.trans)
  next
    case False
    then show ?thesis by (simp add: evictLoop_stop)
  qed
qed

lemma evictLoop_Nil: "evictLoop remaining cur [] = []"
  by (simp add: evictLoop_stop)

lemma budgetAllocator_None_iff:
  "budgetAllocator encode limits fs = None \<longleftrightarrow> survivingFileDiffs encode limits fs = []"
  by (auto simp: budgetAllocator_def survivingFileDiffs_def accurateFileDiffStats_def evictLoop_Nil)

lemma includedFileDiffs_mono:
  "valueOf (tokensRemaining limits) \<le> valueOf r \<Longrightarrow>
   prefix (includedFileDiffs limits fs) (includedFileDiffs (limits\<lparr>tokensRemaining := r\<rparr>) fs)"
  unfolding includedFileDiffs_def
  using includeLoop_mono_prefix [OF sorted_estimatedFileDiffStats] by simp

lemma accurateFileDiffStats_mono:
  "valueOf (tokensRemaining limits) \<le> valueOf r \<Longrightarrow>
   prefix (accurateFileDiffStats encode limits fs)
          (accurateFileDiffStats encode (limits\<lparr>tokensRemaining := r\<rparr>) fs)"
  unfolding accurateFileDiffStats_def
  by (intro map_mono_prefix includedFileDiffs_mono)

text \<open>
  C4: when \<open>tokensRemaining < runningTokenCount\<close> the result is \<^verbatim>\<open>{ diff: null }\<close> for every
  candidate list, also one with a candidate of empty content (estimate 0): a sum of the
  running count and an estimate, rounded, is not below the running count.
\<close>

theorem budgetAllocator_over_budget:
  "valueOf (tokensRemaining limits) < valueOf (runningTokenCount limits) \<Longrightarrow>
   budgetAllocator encode limits essentialFileDiffs = None"
  by (simp add: budgetAllocator_def includedFileDiffs_def includeLoop_over_budget)

theorem budgetAllocator_over_budget_witness:
  "valueOf (tokensRemaining overdrawn) < valueOf (runningTokenCount overdrawn)
   \<and> budgetAllocator tokenPerCodeUnit overdrawn [\<lparr>filename = js ''a.ts'', diffContent = []\<rparr>]
       = None"
proof -
  have h: "valueOf (tokensRemaining overdrawn) < valueOf (runningTokenCount overdrawn)"
    by code_simp
  from budgetAllocator_over_budget [OF h] h show ?thesis by blast
qed

subsection \<open>Sums within the exact range\<close>

lemma addNumber_exact:
  "0 \<le> valueOf a \<Longrightarrow> valueOf a + int n \<le> 2 ^ 53 \<Longrightarrow>
   valueOf (addNumber a (toNumber (int n))) = valueOf a + int n"
proof -
  assume a: "0 \<le> valueOf a" and b: "valueOf a + int n \<le> 2 ^ 53"
  then have "\<bar>int n\<bar> \<le> 2 ^ 53" by simp
  then have n: "roundToNumber (int n) = int n" by (rule roundToNumber_exact)
  from a b have "\<bar>valueOf a + int n\<bar> \<le> 2 ^ 53" by simp
  then have "roundToNumber (valueOf a + int n) = valueOf a + int n" by (rule roundToNumber_exact)
  with n show ?thesis by simp
qed

lemma subNumber_exact:
  "int n \<le> valueOf a \<Longrightarrow> valueOf a \<le> 2 ^ 53 \<Longrightarrow>
   valueOf (subNumber a (toNumber (int n))) = valueOf a - int n"
proof -
  assume a: "int n \<le> valueOf a" and b: "valueOf a \<le> 2 ^ 53"
  then have "\<bar>int n\<bar> \<le> 2 ^ 53" by simp
  then have n: "roundToNumber (int n) = int n" by (rule roundToNumber_exact)
  from a b have "\<bar>valueOf a - int n\<bar> \<le> 2 ^ 53" by simp
  then have "roundToNumber (valueOf a - int n) = valueOf a - int n" by (rule roundToNumber_exact)
  with n show ?thesis by simp
qed

text \<open>The sum of the exact counts of a list of files, as an integer.\<close>

lemma accurateTotal_exact:
  "0 \<le> valueOf running \<Longrightarrow>
   valueOf running + (\<Sum>f\<leftarrow>files. int (tokenCount f)) \<le> 2 ^ 53 \<Longrightarrow>
   valueOf (accurateTotal running files) = valueOf running + (\<Sum>f\<leftarrow>files. int (tokenCount f))"
  unfolding accurateTotal_def
proof (induction files arbitrary: running)
  case Nil
  then show ?case by simp
next
  case (Cons f files)
  have nn: "0 \<le> (\<Sum>f\<leftarrow>files. int (tokenCount f))" by (rule sum_list_nonneg) auto
  with Cons.prems have step: "valueOf (addNumber running (toNumber (int (tokenCount f))))
                   = valueOf running + int (tokenCount f)"
    by (intro addNumber_exact) auto
  with Cons.prems have "0 \<le> valueOf (addNumber running (toNumber (int (tokenCount f))))"
    and "valueOf (addNumber running (toNumber (int (tokenCount f))))
           + (\<Sum>f\<leftarrow>files. int (tokenCount f)) \<le> 2 ^ 53"
    by auto
  from Cons.IH [OF this] step show ?case by simp
qed

lemma sum_butlast:
  "files \<noteq> [] \<Longrightarrow>
   (\<Sum>f\<leftarrow>butlast files. int (tokenCount f))
   = (\<Sum>f\<leftarrow>files. int (tokenCount f)) - int (tokenCount (last files))"
proof -
  assume "files \<noteq> []"
  then have "files = butlast files @ [last files]" by simp
  then have "(\<Sum>f\<leftarrow>files. int (tokenCount f))
             = (\<Sum>f\<leftarrow>butlast files @ [last files]. int (tokenCount f))"
    by simp
  then show ?thesis by simp
qed

lemma evictLoop_exact_step:
  assumes "0 \<le> valueOf running"
    and "valueOf cur = valueOf running + (\<Sum>f\<leftarrow>files. int (tokenCount f))"
    and "valueOf cur \<le> 2 ^ 53"
    and "files \<noteq> []"
  shows "valueOf (subNumber cur (toNumber (int (tokenCount (last files)))))
         = valueOf running + (\<Sum>f\<leftarrow>butlast files. int (tokenCount f))"
    and "valueOf (subNumber cur (toNumber (int (tokenCount (last files))))) \<le> 2 ^ 53"
proof -
  have nn: "0 \<le> (\<Sum>f\<leftarrow>butlast files. int (tokenCount f))" by (rule sum_list_nonneg) auto
  with assms(1,2) sum_butlast [OF assms(4)] have "int (tokenCount (last files)) \<le> valueOf cur"
    by linarith
  from subNumber_exact [OF this assms(3)] assms(2) sum_butlast [OF assms(4)]
  show "valueOf (subNumber cur (toNumber (int (tokenCount (last files)))))
         = valueOf running + (\<Sum>f\<leftarrow>butlast files. int (tokenCount f))"
    by simp
  from subNumber_exact [OF \<open>int (tokenCount (last files)) \<le> valueOf cur\<close> assms(3)] assms(3)
  show "valueOf (subNumber cur (toNumber (int (tokenCount (last files))))) \<le> 2 ^ 53"
    by simp
qed

lemma evictLoop_within:
  "0 \<le> valueOf running \<Longrightarrow>
   valueOf cur = valueOf running + (\<Sum>f\<leftarrow>files. int (tokenCount f)) \<Longrightarrow>
   valueOf cur \<le> 2 ^ 53 \<Longrightarrow>
   evictLoop remaining cur files \<noteq> [] \<Longrightarrow>
   valueOf running + (\<Sum>f\<leftarrow>evictLoop remaining cur files. int (tokenCount f)) \<le> valueOf remaining"
proof (induction remaining cur files rule: evictLoop.induct)
  case (1 remaining cur files)
  show ?case
  proof (cases "valueOf cur > valueOf remaining \<and> length files > 0")
    case True
    then have ne: "files \<noteq> []" by simp
    have eq: "evictLoop remaining cur files =
              evictLoop remaining (subNumber cur (toNumber (int (tokenCount (last files))))) (butlast files)"
      using True by (simp add: evictLoop_step)
    note s = evictLoop_exact_step [OF "1.prems"(1,2,3) ne]
    from "1.IH" [OF True "1.prems"(1) s] "1.prems"(4) eq show ?thesis by simp
  next
    case False
    then have eq: "evictLoop remaining cur files = files"
      by (simp add: evictLoop_stop)
    with "1.prems" False show ?thesis by auto
  qed
qed

lemma evictLoop_maximal:
  "0 \<le> valueOf running \<Longrightarrow>
   valueOf cur = valueOf running + (\<Sum>f\<leftarrow>files. int (tokenCount f)) \<Longrightarrow>
   valueOf cur \<le> 2 ^ 53 \<Longrightarrow>
   prefix p files \<Longrightarrow>
   valueOf running + (\<Sum>f\<leftarrow>p. int (tokenCount f)) \<le> valueOf remaining \<Longrightarrow>
   length p \<le> length (evictLoop remaining cur files)"
proof (induction remaining cur files rule: evictLoop.induct)
  case (1 remaining cur files)
  show ?case
  proof (cases "valueOf cur > valueOf remaining \<and> length files > 0")
    case True
    then have ne: "files \<noteq> []" by simp
    have eq: "evictLoop remaining cur files =
              evictLoop remaining (subNumber cur (toNumber (int (tokenCount (last files))))) (butlast files)"
      using True by (simp add: evictLoop_step)
    note s = evictLoop_exact_step [OF "1.prems"(1,2,3) ne]
    from True "1.prems"(2,5) have "p \<noteq> files" by auto
    with "1.prems"(4) have "prefix p (butlast files)" by (rule prefix_butlast)
    from "1.IH" [OF True "1.prems"(1) s this "1.prems"(5)] eq show ?thesis by simp
  next
    case False
    then have eq: "evictLoop remaining cur files = files"
      by (simp add: evictLoop_stop)
    with "1.prems"(4) show ?thesis by (simp add: prefix_length_le)
  qed
qed

lemma map_insort_key:
  "map g (insort_key (\<lambda>x. f (g x)) x xs) = insort_key f (g x) (map g xs)"
  by (induction xs) auto

lemma map_sort_key:
  "map g (sort_key (\<lambda>x. f (g x)) xs) = sort_key f (map g xs)"
  by (induction xs) (auto simp: map_insort_key)

lemma contents_estimatedFileDiffStats:
  "map diffContent (estimatedFileDiffStats fs) = sort_key estimateTokens (map diffContent fs)"
proof -
  let ?mk = "\<lambda>f. \<lparr>filename = filename f, diffContent = diffContent f,
                   estimatedTokenCount = estimateTokens (diffContent f)\<rparr>"
  have "estimatedFileDiffStats fs = map ?mk (sort_key (\<lambda>f. estimatedTokenCount (?mk f)) fs)"
    unfolding estimatedFileDiffStats_def by (rule map_sort_key [symmetric])
  then have "map diffContent (estimatedFileDiffStats fs)
             = map diffContent (sort_key (\<lambda>f. estimateTokens (diffContent f)) fs)"
    by (simp add: comp_def)
  then show ?thesis by (simp only: map_sort_key)
qed

lemma prefix_take: "prefix xs ys \<Longrightarrow> xs = take (length xs) ys"
  by (auto simp: prefix_def)

lemma contents_accurateFileDiffStats:
  "map diffContent (accurateFileDiffStats encode limits fs)
   = map diffContent (includedFileDiffs limits fs)"
  by (simp add: accurateFileDiffStats_def comp_def)

lemma tokenCount_accurate:
  "f \<in> set (accurateFileDiffStats encode limits fs) \<Longrightarrow> tokenCount f = length (encode (diffContent f))"
  by (auto simp: accurateFileDiffStats_def)

lemma sum_prefix_le:
  "prefix p xs \<Longrightarrow> (\<Sum>x\<leftarrow>p. int (g x)) \<le> (\<Sum>x\<leftarrow>xs. int (g x))"
proof -
  assume "prefix p xs"
  then obtain s where xs: "xs = p @ s" by (auto simp: prefix_def)
  have "0 \<le> (\<Sum>x\<leftarrow>s. int (g x))" by (rule sum_list_nonneg) auto
  with xs show ?thesis by simp
qed

lemma sum_list_insort_key:
  "(\<Sum>x\<leftarrow>insort_key k a xs. (g x :: int)) = g a + (\<Sum>x\<leftarrow>xs. g x)"
  by (induction xs) auto

lemma sum_list_sort_key:
  "(\<Sum>x\<leftarrow>sort_key k xs. (g x :: int)) = (\<Sum>x\<leftarrow>xs. g x)"
  by (induction xs) (auto simp: sum_list_insort_key)

text \<open>The exact counts of the files that pass the estimate are among those of all files.\<close>

lemma accurate_sum_le:
  "(\<Sum>f\<leftarrow>accurateFileDiffStats encode limits fs. int (tokenCount f))
   \<le> (\<Sum>f\<leftarrow>fs. int (length (encode (diffContent f))))"
proof -
  have "(\<Sum>f\<leftarrow>accurateFileDiffStats encode limits fs. int (tokenCount f))
        = (\<Sum>c\<leftarrow>map diffContent (includedFileDiffs limits fs). int (length (encode c)))"
    by (simp add: accurateFileDiffStats_def comp_def)
  also have "\<dots> \<le> (\<Sum>c\<leftarrow>map diffContent (estimatedFileDiffStats fs). int (length (encode c)))"
  proof (rule sum_prefix_le)
    have "prefix (includedFileDiffs limits fs) (estimatedFileDiffStats fs)"
      unfolding includedFileDiffs_def
      by (rule includeLoop_prefix) (rule sorted_estimatedFileDiffStats)
    then show "prefix (map diffContent (includedFileDiffs limits fs))
                      (map diffContent (estimatedFileDiffStats fs))"
      by (rule map_mono_prefix)
  qed
  also have "\<dots> = (\<Sum>c\<leftarrow>sort_key estimateTokens (map diffContent fs). int (length (encode c)))"
    by (simp only: contents_estimatedFileDiffStats)
  also have "\<dots> = (\<Sum>c\<leftarrow>map diffContent fs. int (length (encode c)))"
    by (rule sum_list_sort_key)
  also have "\<dots> = (\<Sum>f\<leftarrow>fs. int (length (encode (diffContent f))))"
    by (simp add: comp_def)
  finally show ?thesis .
qed

lemma surviving_sum:
  "(\<Sum>f\<leftarrow>survivingFileDiffs encode limits fs. int (tokenCount f))
   = (\<Sum>f\<leftarrow>survivingFileDiffs encode limits fs. int (length (encode (diffContent f))))"
proof -
  have "set (survivingFileDiffs encode limits fs) \<subseteq> set (accurateFileDiffStats encode limits fs)"
    unfolding survivingFileDiffs_def by (rule set_mono_prefix) (rule evictLoop_prefix)
  then have "map (\<lambda>f. int (tokenCount f)) (survivingFileDiffs encode limits fs)
             = map (\<lambda>f. int (length (encode (diffContent f)))) (survivingFileDiffs encode limits fs)"
    by (auto dest: tokenCount_accurate)
  then show ?thesis by (rule arg_cong)
qed

text \<open>Within the exact range, the total before the eviction loop is the exact sum.\<close>

lemma accurateTotal_included:
  assumes "0 \<le> valueOf (runningTokenCount limits)"
    and "valueOf (runningTokenCount limits)
           + (\<Sum>f\<leftarrow>fs. int (length (encode (diffContent f)))) \<le> 2 ^ 53"
  shows "valueOf (accurateTotal (runningTokenCount limits) (accurateFileDiffStats encode limits' fs))
         = valueOf (runningTokenCount limits)
           + (\<Sum>f\<leftarrow>accurateFileDiffStats encode limits' fs. int (tokenCount f))"
    and "valueOf (accurateTotal (runningTokenCount limits) (accurateFileDiffStats encode limits' fs))
         \<le> 2 ^ 53"
proof -
  from assms(2) accurate_sum_le [of encode limits' fs]
  have b: "valueOf (runningTokenCount limits)
           + (\<Sum>f\<leftarrow>accurateFileDiffStats encode limits' fs. int (tokenCount f)) \<le> 2 ^ 53"
    by linarith
  from accurateTotal_exact [OF assms(1) b]
  show "valueOf (accurateTotal (runningTokenCount limits) (accurateFileDiffStats encode limits' fs))
         = valueOf (runningTokenCount limits)
           + (\<Sum>f\<leftarrow>accurateFileDiffStats encode limits' fs. int (tokenCount f))" .
  with b show "valueOf (accurateTotal (runningTokenCount limits) (accurateFileDiffStats encode limits' fs))
         \<le> 2 ^ 53" by simp
qed

text \<open>
  C3 (as amended): whenever the result is a diff, the running count is not negative and
  the running count plus the exact token counts of all candidates is at most \<open>2 ^ 53\<close>
  (so that every sum and difference of the two loops is exact), the running count plus
  the exact token counts of the files in the result does not exceed \<open>tokensRemaining\<close>.
\<close>

theorem budgetAllocator_within_budget:
  assumes "budgetAllocator encode limits fs = Some d"
    and "0 \<le> valueOf (runningTokenCount limits)"
    and "valueOf (runningTokenCount limits)
           + (\<Sum>f\<leftarrow>fs. int (length (encode (diffContent f)))) \<le> 2 ^ 53"
  shows "valueOf (runningTokenCount limits)
         + (\<Sum>f\<leftarrow>survivingFileDiffs encode limits fs. int (length (encode (diffContent f))))
         \<le> valueOf (tokensRemaining limits)"
proof -
  let ?R = "survivingFileDiffs encode limits fs"
  from assms(1) have ne: "?R \<noteq> []"
    by (auto simp: budgetAllocator_def split: if_splits)
  note t = accurateTotal_included [OF assms(2,3), of limits]
  have "valueOf (runningTokenCount limits) + (\<Sum>f\<leftarrow>?R. int (tokenCount f))
        \<le> valueOf (tokensRemaining limits)"
    using ne unfolding survivingFileDiffs_def
    by (intro evictLoop_within [OF assms(2) t])
  then show ?thesis by (simp only: surviving_sum)
qed

theorem budgetAllocator_within_budget_witness:
  "budgetAllocator tokenPerCodeUnit budget20 twoFiles = Some (js ''diff --git a/a b/a'')
   \<and> valueOf (runningTokenCount budget20)
       + (\<Sum>f\<leftarrow>survivingFileDiffs tokenPerCodeUnit budget20 twoFiles.
            int (length (tokenPerCodeUnit (diffContent f))))
       \<le> valueOf (tokensRemaining budget20)"
proof -
  have h: "budgetAllocator tokenPerCodeUnit budget20 twoFiles = Some (js ''diff --git a/a b/a'')"
    by code_simp
  have r: "0 \<le> valueOf (runningTokenCount budget20)"
    by code_simp
  have s: "valueOf (runningTokenCount budget20)
           + (\<Sum>f\<leftarrow>twoFiles. int (length (tokenPerCodeUnit (diffContent f)))) \<le> 2 ^ 53"
    by code_simp
  from budgetAllocator_within_budget [OF h r s] h show ?thesis by blast
qed

text \<open>
  C3 as stated fails: with \<open>runningTokenCount = tokensRemaining = 2 ^ 60\<close> the sums
  \<open>2 ^ 60 + 6\<close> (the estimate) and \<open>2 ^ 60 + 18\<close> (the exact count) are both rounded to
  \<open>2 ^ 60\<close>; the file passes both loops and the result is its diff, although the running
  count plus its 18 tokens exceeds \<open>tokensRemaining\<close>.
\<close>

theorem budgetAllocator_rounding_counterexample:
  "budgetAllocator tokenPerCodeUnit budgetTwoTo60 oneFile = Some (js ''diff --git a/a b/a'')
   \<and> map diffContent (survivingFileDiffs tokenPerCodeUnit budgetTwoTo60 oneFile)
       = [js ''diff --git a/a b/a'']
   \<and> valueOf (runningTokenCount budgetTwoTo60) = 2 ^ 60
   \<and> valueOf (tokensRemaining budgetTwoTo60) = 2 ^ 60
   \<and> length (tokenPerCodeUnit (js ''diff --git a/a b/a'')) = 18
   \<and> valueOf (runningTokenCount budgetTwoTo60)
       + (\<Sum>f\<leftarrow>survivingFileDiffs tokenPerCodeUnit budgetTwoTo60 oneFile.
            int (length (tokenPerCodeUnit (diffContent f))))
       > valueOf (tokensRemaining budgetTwoTo60)"
  by code_simp

text \<open>
  C5 (as amended): for a fixed candidate list, tokenizer and running count, the running
  count not negative and the running count plus the exact token counts of all candidates
  at most \<open>2 ^ 53\<close>, raising \<open>tokensRemaining\<close> never lowers the number of files that survive
  the eviction loop, which is the number of files in the final result.
\<close>

theorem surviving_monotone:
  assumes "valueOf (tokensRemaining limits) \<le> valueOf r"
    and "0 \<le> valueOf (runningTokenCount limits)"
    and "valueOf (runningTokenCount limits)
           + (\<Sum>f\<leftarrow>fs. int (length (encode (diffContent f)))) \<le> 2 ^ 53"
  shows "length (survivingFileDiffs encode limits fs)
         \<le> length (survivingFileDiffs encode (limits\<lparr>tokensRemaining := r\<rparr>) fs)"
proof (cases "survivingFileDiffs encode limits fs = []")
  case True
  then show ?thesis by simp
next
  case False
  let ?A = "accurateFileDiffStats encode limits fs"
  let ?A' = "accurateFileDiffStats encode (limits\<lparr>tokensRemaining := r\<rparr>) fs"
  let ?R = "survivingFileDiffs encode limits fs"
  have "prefix ?R ?A"
    unfolding survivingFileDiffs_def by (rule evictLoop_prefix)
  moreover have "prefix ?A ?A'" using assms(1) by (rule accurateFileDiffStats_mono)
  ultimately have pre: "prefix ?R ?A'" by (rule prefix_order.trans)
  note t = accurateTotal_included [OF assms(2,3), of limits]
  note t' = accurateTotal_included [OF assms(2,3), of "limits\<lparr>tokensRemaining := r\<rparr>"]
  have "valueOf (runningTokenCount limits) + (\<Sum>f\<leftarrow>?R. int (tokenCount f))
        \<le> valueOf (tokensRemaining limits)"
    using False unfolding survivingFileDiffs_def
    by (intro evictLoop_within [OF assms(2) t])
  with assms(1) have within: "valueOf (runningTokenCount limits) + (\<Sum>f\<leftarrow>?R. int (tokenCount f))
        \<le> valueOf r" by simp
  show ?thesis
    unfolding survivingFileDiffs_def [of encode "limits\<lparr>tokensRemaining := r\<rparr>"]
    using evictLoop_maximal [OF assms(2) t' pre within]
    by simp
qed

theorem surviving_monotone_witness:
  "valueOf (tokensRemaining budget20) \<le> valueOf (toNumber 40)
   \<and> 0 \<le> valueOf (runningTokenCount budget20)
   \<and> length (survivingFileDiffs tokenPerCodeUnit budget20 twoFiles)
     \<le> length (survivingFileDiffs tokenPerCodeUnit (budget20\<lparr>tokensRemaining := toNumber 40\<rparr>) twoFiles)"
proof -
  have h: "valueOf (tokensRemaining budget20) \<le> valueOf (toNumber 40)"
    by code_simp
  have r: "0 \<le> valueOf (runningTokenCount budget20)"
    by code_simp
  have s: "valueOf (runningTokenCount budget20)
           + (\<Sum>f\<leftarrow>twoFiles. int (length (tokenPerCodeUnit (diffContent f)))) \<le> 2 ^ 53"
    by code_simp
  from surviving_monotone [OF h r s] h r show ?thesis by blast
qed

text \<open>
  C5 as stated fails: with a running count of \<open>2 ^ 56\<close> the sums are rounded to multiples
  of 16. At \<open>tokensRemaining = 2 ^ 56\<close> three files pass the estimate, their total is
  rounded to \<open>2 ^ 56 + 48\<close>, and the eviction loop returns to \<open>2 ^ 56\<close> with one file left.
  At \<open>tokensRemaining = 2 ^ 56 + 16\<close> the fourth file passes the estimate as well, the
  total is rounded to \<open>2 ^ 56 + 64\<close>, and the differences of the eviction loop stay at
  \<open>2 ^ 56 + 32\<close> or above until no file is left.
\<close>

theorem surviving_rounding_counterexample:
  "valueOf (runningTokenCount budgetTwoTo56) = 2 ^ 56
   \<and> valueOf (tokensRemaining budgetTwoTo56) = 2 ^ 56
   \<and> valueOf (toNumber (2 ^ 56 + 16)) = 2 ^ 56 + 16
   \<and> map estimatedTokenCount (estimatedFileDiffStats fourFiles) = [6, 7, 8, 9]
   \<and> map (\<lambda>f. length (tableTokenizer (diffContent f))) (estimatedFileDiffStats fourFiles)
       = [8, 24, 11, 8]
   \<and> length (survivingFileDiffs tableTokenizer budgetTwoTo56 fourFiles) = 1
   \<and> length (survivingFileDiffs tableTokenizer
               (budgetTwoTo56\<lparr>tokensRemaining := toNumber (2 ^ 56 + 16)\<rparr>) fourFiles) = 0"
  by code_simp

subsection \<open>The order of the result\<close>

text \<open>
  C1 (as amended): when the result is a diff, it is the contents of the surviving files
  joined by a single newline, and the surviving files are the first \<open>n > 0\<close> files in
  the order of the estimate (ascending, files of equal estimate in the order of the
  input), not in the order of the input.
\<close>

theorem budgetAllocator_estimate_order:
  assumes "budgetAllocator encode limits fs = Some d"
  shows "\<exists>n. 0 < n \<and>
           map diffContent (survivingFileDiffs encode limits fs)
             = take n (sort_key estimateTokens (map diffContent fs)) \<and>
           d = join (js ''\<newline>'') (map diffContent (survivingFileDiffs encode limits fs))"
proof -
  let ?R = "survivingFileDiffs encode limits fs"
  from assms have ne: "?R \<noteq> []" and d: "d = join (js ''\<newline>'') (map diffContent ?R)"
    by (auto simp: budgetAllocator_def split: if_splits)
  have "prefix ?R (accurateFileDiffStats encode limits fs)"
    unfolding survivingFileDiffs_def by (rule evictLoop_prefix)
  then have "prefix (map diffContent ?R)
                    (map diffContent (accurateFileDiffStats encode limits fs))"
    by (rule map_mono_prefix)
  then have "prefix (map diffContent ?R) (map diffContent (includedFileDiffs limits fs))"
    by (simp only: contents_accurateFileDiffStats)
  moreover have "prefix (includedFileDiffs limits fs) (estimatedFileDiffStats fs)"
    unfolding includedFileDiffs_def
    by (rule includeLoop_prefix) (rule sorted_estimatedFileDiffStats)
  then have "prefix (map diffContent (includedFileDiffs limits fs))
                    (map diffContent (estimatedFileDiffStats fs))"
    by (rule map_mono_prefix)
  then have "prefix (map diffContent (includedFileDiffs limits fs))
                    (sort_key estimateTokens (map diffContent fs))"
    by (simp only: contents_estimatedFileDiffStats)
  ultimately have "prefix (map diffContent ?R) (sort_key estimateTokens (map diffContent fs))"
    by (rule prefix_order.trans)
  then have "map diffContent ?R
             = take (length ?R) (sort_key estimateTokens (map diffContent fs))"
    using prefix_take by fastforce
  with ne d show ?thesis by (intro exI [of _ "length ?R"]) simp
qed

theorem budgetAllocator_estimate_order_witness:
  "budgetAllocator tokenPerCodeUnit budget20 twoFiles = Some (js ''diff --git a/a b/a'')
   \<and> (\<exists>n. 0 < n \<and>
           map diffContent (survivingFileDiffs tokenPerCodeUnit budget20 twoFiles)
             = take n (sort_key estimateTokens (map diffContent twoFiles)) \<and>
           js ''diff --git a/a b/a''
             = join (js ''\<newline>'') (map diffContent (survivingFileDiffs tokenPerCodeUnit budget20 twoFiles)))"
proof -
  have h: "budgetAllocator tokenPerCodeUnit budget20 twoFiles = Some (js ''diff --git a/a b/a'')"
    by code_simp
  from budgetAllocator_estimate_order [OF h] h show ?thesis by blast
qed

text \<open>
  C1 as stated fails: a larger file followed by a smaller one comes out in the order of
  the estimates, the smaller file first.
\<close>

lemma parse_bigThenSmall:
  "parsePerFileDiffs bigThenSmall
   = [\<lparr>filename = js ''b.ts'', diffContent = js ''diff --git a/b.ts b/b.ts\<newline>+long line''\<rparr>,
      \<lparr>filename = js ''a.ts'', diffContent = js ''diff --git a/a.ts b/a.ts\<newline>+x''\<rparr>]"
  by code_simp

lemma essential_ts:
  "isEssentialFile toLowerCaseASCII (js ''b.ts'')" "isEssentialFile toLowerCaseASCII (js ''a.ts'')"
  by code_simp+

lemma surviving_bigThenSmall:
  "map diffContent
     (survivingFileDiffs tokenPerCodeUnit budget1000
        [\<lparr>filename = js ''b.ts'', diffContent = js ''diff --git a/b.ts b/b.ts\<newline>+long line''\<rparr>,
         \<lparr>filename = js ''a.ts'', diffContent = js ''diff --git a/a.ts b/a.ts\<newline>+x''\<rparr>])
   = [js ''diff --git a/a.ts b/a.ts\<newline>+x'', js ''diff --git a/b.ts b/b.ts\<newline>+long line'']"
  by code_simp

lemma allocate_bigThenSmall:
  "budgetAllocator tokenPerCodeUnit budget1000
     [\<lparr>filename = js ''b.ts'', diffContent = js ''diff --git a/b.ts b/b.ts\<newline>+long line''\<rparr>,
      \<lparr>filename = js ''a.ts'', diffContent = js ''diff --git a/a.ts b/a.ts\<newline>+x''\<rparr>]
   = Some (js ''diff --git a/a.ts b/a.ts\<newline>+x\<newline>diff --git a/b.ts b/b.ts\<newline>+long line'')"
  by code_simp

theorem budgetAllocator_original_order_counterexample:
  "processPullRequestDiff toLowerCaseASCII tokenPerCodeUnit bigThenSmall budget1000
     = Some (js ''diff --git a/a.ts b/a.ts\<newline>+x\<newline>diff --git a/b.ts b/b.ts\<newline>+long line'')
   \<and> join (js ''\<newline>'')
        (inOriginalOrder (parsePerFileDiffs bigThenSmall)
           (map diffContent
              (survivingFileDiffs tokenPerCodeUnit budget1000
                 (filter (\<lambda>f. isEssentialFile toLowerCaseASCII (filename f))
                    (parsePerFileDiffs bigThenSmall)))))
     = js ''diff --git a/b.ts b/b.ts\<newline>+long line\<newline>diff --git a/a.ts b/a.ts\<newline>+x''
   \<and> js ''diff --git a/a.ts b/a.ts\<newline>+x\<newline>diff --git a/b.ts b/b.ts\<newline>+long line''
     \<noteq> js ''diff --git a/b.ts b/b.ts\<newline>+long line\<newline>diff --git a/a.ts b/a.ts\<newline>+x''"
proof -
  have f: "filter (\<lambda>f. isEssentialFile toLowerCaseASCII (filename f)) (parsePerFileDiffs bigThenSmall)
           = parsePerFileDiffs bigThenSmall"
    by (simp add: parse_bigThenSmall essential_ts)
  show ?thesis
    unfolding processPullRequestDiff_def f
    unfolding parse_bigThenSmall surviving_bigThenSmall allocate_bigThenSmall
    by (simp add: inOriginalOrder_def js_def)
qed

section \<open>Properties of the pagination loop\<close>

lemma fetchLoop_done:
  "\<not> (hasMoreComments st \<or> hasMoreReviews st) \<Longrightarrow> fetchLoop numberToString graphql params st = Inr st"
  by (subst fetchLoop.simps) simp

lemma fetchLoop_ceiling_reached:
  "pageCount st \<ge> MAX_PAGES \<Longrightarrow> fetchLoop numberToString graphql params st = Inr st"
  by (subst fetchLoop.simps) simp

lemma fetchLoop_throw:
  "hasMoreComments st \<or> hasMoreReviews st \<Longrightarrow> pageCount st < MAX_PAGES \<Longrightarrow>
   graphql (pageCount st + 1) (commentsEndCursor st) (reviewsEndCursor st) = Inl e \<Longrightarrow>
   fetchLoop numberToString graphql params st = Inl e"
  by (subst fetchLoop.simps) auto

lemma fetchLoop_last:
  "hasMoreComments st \<or> hasMoreReviews st \<Longrightarrow> pageCount st < MAX_PAGES \<Longrightarrow>
   graphql (pageCount st + 1) (commentsEndCursor st) (reviewsEndCursor st) = Inr prData \<Longrightarrow>
   st2 = processPage numberToString params (st\<lparr>pageCount := pageCount st + 1\<rparr>) prData \<Longrightarrow>
   \<not> hasMoreComments st2 \<and> \<not> hasMoreReviews st2 \<Longrightarrow>
   fetchLoop numberToString graphql params st = Inr st2"
  by (subst fetchLoop.simps) auto

lemma fetchLoop_next:
  "hasMoreComments st \<or> hasMoreReviews st \<Longrightarrow> pageCount st < MAX_PAGES \<Longrightarrow>
   graphql (pageCount st + 1) (commentsEndCursor st) (reviewsEndCursor st) = Inr prData \<Longrightarrow>
   st2 = processPage numberToString params (st\<lparr>pageCount := pageCount st + 1\<rparr>) prData \<Longrightarrow>
   hasMoreComments st2 \<or> hasMoreReviews st2 \<Longrightarrow>
   fetchLoop numberToString graphql params st = fetchLoop numberToString graphql params st2"
  by (subst fetchLoop.simps) auto

text \<open>Induction along the iterations of the loop, for a fixed transport.\<close>

lemma fetchLoop_iterations [case_names stop throw last continue]:
  assumes stop: "\<And>st. \<not> (hasMoreComments st \<or> hasMoreReviews st) \<or> pageCount st \<ge> MAX_PAGES \<Longrightarrow> Q st"
    and throw: "\<And>st e. hasMoreComments st \<or> hasMoreReviews st \<Longrightarrow> pageCount st < MAX_PAGES \<Longrightarrow>
        graphql (pageCount st + 1) (commentsEndCursor st) (reviewsEndCursor st) = Inl e \<Longrightarrow> Q st"
    and last: "\<And>st prData st2. hasMoreComments st \<or> hasMoreReviews st \<Longrightarrow> pageCount st < MAX_PAGES \<Longrightarrow>
        graphql (pageCount st + 1) (commentsEndCursor st) (reviewsEndCursor st) = Inr prData \<Longrightarrow>
        st2 = processPage numberToString params (st\<lparr>pageCount := pageCount st + 1\<rparr>) prData \<Longrightarrow>
        \<not> hasMoreComments st2 \<and> \<not> hasMoreReviews st2 \<Longrightarrow> Q st"
    and continue: "\<And>st prData st2. hasMoreComments st \<or> hasMoreReviews st \<Longrightarrow> pageCount st < MAX_PAGES \<Longrightarrow>
        graphql (pageCount st + 1) (commentsEndCursor st) (reviewsEndCursor st) = Inr prData \<Longrightarrow>
        st2 = processPage numberToString params (st\<lparr>pageCount := pageCount st + 1\<rparr>) prData \<Longrightarrow>
        hasMoreComments st2 \<or> hasMoreReviews st2 \<Longrightarrow> Q st2 \<Longrightarrow> Q st"
  shows "Q st"
proof (induction "MAX_PAGES - pageCount st" arbitrary: st rule: less_induct)
  case less
  show ?case
  proof (cases "\<not> (hasMoreComments st \<or> hasMoreReviews st) \<or> pageCount st \<ge> MAX_PAGES")
    case True
    then show ?thesis by (rule stop)
  next
    case False
    then have more: "hasMoreComments st \<or> hasMoreReviews st" and lt: "pageCount st < MAX_PAGES"
      by auto
    show ?thesis
    proof (cases "graphql (pageCount st + 1) (commentsEndCursor st) (reviewsEndCursor st)")
      case (Inl e)
      with more lt show ?thesis by (rule throw)
    next
      case (Inr prData)
      define st2 where "st2 = processPage numberToString params (st\<lparr>pageCount := pageCount st + 1\<rparr>) prData"
      show ?thesis
      proof (cases "hasMoreComments st2 \<or> hasMoreReviews st2")
        case True
        have "MAX_PAGES - pageCount st2 < MAX_PAGES - pageCount st"
          using lt by (simp add: st2_def pageCount_processPage)
        then have "Q st2" by (rule less)
        with more lt Inr st2_def True show ?thesis by (rule continue)
      next
        case False
        then have "\<not> hasMoreComments st2 \<and> \<not> hasMoreReviews st2" by simp
        with more lt Inr st2_def show ?thesis by (rule last)
      qed
    qed
  qed
qed

lemma fetchLoop_stop:
  "\<not> (hasMoreComments st \<or> hasMoreReviews st) \<or> pageCount st \<ge> MAX_PAGES \<Longrightarrow>
   fetchLoop numberToString graphql params st = Inr st"
  using fetchLoop_done fetchLoop_ceiling_reached by blast

subsection \<open>Bot authors\<close>

lemma pushComments_no_bot:
  "c \<in> set (pushComments numberToString params nodes) \<Longrightarrow> type (user c) \<noteq> js ''Bot''"
  by (auto simp: pushComments_def toSimplifiedComment_def)

lemma processPage_no_bot:
  assumes "\<forall>c\<in>set (allComments st). type (user c) \<noteq> js ''Bot''"
  shows "\<forall>c\<in>set (allComments (processPage numberToString params st prData)). type (user c) \<noteq> js ''Bot''"
  using assms
  by (auto simp: processPage_def dest: pushComments_no_bot split: option.splits)

lemma fetchLoop_no_bot:
  "fetchLoop numberToString graphql params st = Inr st' \<Longrightarrow>
   \<forall>c\<in>set (allComments st). type (user c) \<noteq> js ''Bot'' \<Longrightarrow>
   \<forall>c\<in>set (allComments st'). type (user c) \<noteq> js ''Bot''"
proof (induction st rule: fetchLoop_iterations [where graphql = graphql and params = params and numberToString = numberToString])
  case (stop st)
  then show ?case by (simp add: fetchLoop_stop)
next
  case (throw st e)
  then show ?case by (simp add: fetchLoop_throw)
next
  case (last st prData st2)
  from fetchLoop_last [where graphql = graphql, OF last(1-5)] last(6)
  have "st' = st2" by simp
  moreover have "\<forall>c\<in>set (allComments st2). type (user c) \<noteq> js ''Bot''"
    unfolding last(4) using last(7) by (intro processPage_no_bot) simp
  ultimately show ?case by simp
next
  case (continue st prData st2)
  from fetchLoop_next [where graphql = graphql, OF continue(1-5)] continue(7)
  have "fetchLoop numberToString graphql params st2 = Inr st'" by simp
  moreover have "\<forall>c\<in>set (allComments st2). type (user c) \<noteq> js ''Bot''"
    unfolding continue(4) using continue(8) by (intro processPage_no_bot) simp
  ultimately show ?case by (rule continue(6))
qed

text \<open>
  C6: no comment of the result has an author of type \<^verbatim>\<open>Bot\<close>, whatever the pages hold,
  for top-level comments and for the comments nested in reviews alike.
\<close>

theorem fetchPullRequestComments_no_bot:
  "\<forall>c\<in>set (fst (fetchPullRequestComments numberToString graphql params)). type (user c) \<noteq> js ''Bot''"
proof (cases "fetchLoop numberToString graphql params initialState")
  case (Inl e)
  then show ?thesis by (simp add: fetchPullRequestComments_def)
next
  case (Inr st)
  then have "\<forall>c\<in>set (allComments st). type (user c) \<noteq> js ''Bot''"
    by (rule fetchLoop_no_bot) (simp add: initialState_def)
  with Inr show ?thesis by (simp add: fetchPullRequestComments_def)
qed

theorem fetchPullRequestComments_no_bot_witness:
  "map (\<lambda>c. type (user c)) (fst (fetchPullRequestComments decimalDigits twoPages params1))
     = [js ''User'', js ''User'', js ''User'', js ''User'']
   \<and> list_all (\<lambda>c. type (user c) \<noteq> js ''Bot'') (fst (fetchPullRequestComments decimalDigits twoPages params1))"
proof -
  have "map (\<lambda>c. type (user c)) (fst (fetchPullRequestComments decimalDigits twoPages params1))
     = [js ''User'', js ''User'', js ''User'', js ''User'']"
    by code_simp
  with fetchPullRequestComments_no_bot [of decimalDigits twoPages params1] show ?thesis
    by (simp add: list_all_iff)
qed

subsection \<open>The page ceiling\<close>

lemma fetchLoop_returns:
  "\<forall>n c r. \<exists>d. graphql n c r = Inr d \<Longrightarrow> \<exists>st'. fetchLoop numberToString graphql params st = Inr st'"
proof (induction st rule: fetchLoop_iterations [where graphql = graphql and params = params and numberToString = numberToString])
  case (stop st)
  then show ?case by (simp add: fetchLoop_stop)
next
  case (throw st e)
  then show ?case by (metis sum.distinct(1))
next
  case (last st prData st2)
  from fetchLoop_last [where graphql = graphql, OF last(1-5)] show ?case by blast
next
  case (continue st prData st2)
  from fetchLoop_next [where graphql = graphql, OF continue(1-5)] continue(6,7)
  show ?case by simp
qed













subsection \<open>Linked issues\<close>

text \<open>
  Once a page has left a truthy cursor behind, no later page appends to \<open>linkedIssues\<close>,
  provided every page that asks for more returns a truthy cursor.
\<close>

lemma fetchLoop_linkedIssues_kept:
  "\<forall>n c r d. graphql n c r = Inr d \<longrightarrow>
      hasNextPage (commentsPageInfo d) \<or> hasNextPage (reviewsPageInfo d) \<longrightarrow>
      truthy (endCursor (commentsPageInfo d)) \<or> truthy (endCursor (reviewsPageInfo d)) \<Longrightarrow>
   fetchLoop numberToString graphql params st = Inr st' \<Longrightarrow>
   truthy (commentsEndCursor st) \<or> truthy (reviewsEndCursor st) \<Longrightarrow>
   linkedIssues st' = linkedIssues st"
proof (induction st rule: fetchLoop_iterations [where graphql = graphql and params = params and numberToString = numberToString])
  case (stop st)
  then show ?case by (simp add: fetchLoop_stop)
next
  case (throw st e)
  then show ?case by (simp add: fetchLoop_throw)
next
  case (last st prData st2)
  from fetchLoop_last [where graphql = graphql, OF last(1-5)] last(7)
  have "st' = st2" by simp
  with last(4,8) show ?case by (auto simp: processPage_def)
next
  case (continue st prData st2)
  from fetchLoop_next [where graphql = graphql, OF continue(1-5)] continue(8)
  have r: "fetchLoop numberToString graphql params st2 = Inr st'" by simp
  from continue(3,7) have
    "hasNextPage (commentsPageInfo prData) \<or> hasNextPage (reviewsPageInfo prData) \<longrightarrow>
     truthy (endCursor (commentsPageInfo prData)) \<or> truthy (endCursor (reviewsPageInfo prData))"
    by blast
  with continue(4,5) have t: "truthy (commentsEndCursor st2) \<or> truthy (reviewsEndCursor st2)"
    by (simp add: processPage_def)
  have "linkedIssues st2 = linkedIssues st"
    using continue(4,9) by (auto simp: processPage_def)
  with continue(6) [OF continue(7) r t] show ?case by simp
qed

text \<open>
  C8: the linked issues are captured once, from the first page only. The pages keep the
  invariant of the spec's PageCursor (a null cursor is only valid on the first request):
  every page that reports a next page on some collection returns a truthy \<^verbatim>\<open>endCursor\<close>
  for at least one collection. Then, when the transport does not throw, the linked
  issues of the result are those of the first page, whatever the later pages hold: no
  later iteration appends to the list.
\<close>

theorem linkedIssues_first_page:
  assumes cursors: "\<forall>n c r d. graphql n c r = Inr d \<longrightarrow>
      hasNextPage (commentsPageInfo d) \<or> hasNextPage (reviewsPageInfo d) \<longrightarrow>
      truthy (endCursor (commentsPageInfo d)) \<or> truthy (endCursor (reviewsPageInfo d))"
    and first: "graphql 1 None None = Inr firstPage"
    and run: "fetchLoop numberToString graphql params initialState = Inr st"
  shows "snd (fetchPullRequestComments numberToString graphql params)
         = (case closingIssuesReferences firstPage of None \<Rightarrow> []
            | Some issues \<Rightarrow> map toLinkedIssue issues)"
proof -
  let ?st2 = "processPage numberToString params (initialState\<lparr>pageCount := pageCount initialState + 1\<rparr>) firstPage"
  have more: "hasMoreComments initialState \<or> hasMoreReviews initialState"
    and lt: "pageCount initialState < MAX_PAGES"
    and call: "graphql (pageCount initialState + 1) (commentsEndCursor initialState)
                 (reviewsEndCursor initialState) = Inr firstPage"
    using first by (simp_all add: initialState_def MAX_PAGES_def)
  have issues: "linkedIssues ?st2
                = (case closingIssuesReferences firstPage of None \<Rightarrow> []
                   | Some issues \<Rightarrow> map toLinkedIssue issues)"
    by (simp add: processPage_def initialState_def truthy_def)
  have "linkedIssues st = linkedIssues ?st2"
  proof (cases "hasMoreComments ?st2 \<or> hasMoreReviews ?st2")
    case True
    from fetchLoop_next [where graphql = graphql, OF more lt call refl True] run
    have r: "fetchLoop numberToString graphql params ?st2 = Inr st" by simp
    from cursors first have
      "hasNextPage (commentsPageInfo firstPage) \<or> hasNextPage (reviewsPageInfo firstPage) \<longrightarrow>
       truthy (endCursor (commentsPageInfo firstPage)) \<or> truthy (endCursor (reviewsPageInfo firstPage))"
      by blast
    with True have "truthy (commentsEndCursor ?st2) \<or> truthy (reviewsEndCursor ?st2)"
      by (simp add: processPage_def)
    with cursors r show ?thesis by (rule fetchLoop_linkedIssues_kept)
  next
    case False
    then have "\<not> hasMoreComments ?st2 \<and> \<not> hasMoreReviews ?st2" by simp
    from fetchLoop_last [where graphql = graphql, OF more lt call refl this] run
    show ?thesis by simp
  qed
  with issues run show ?thesis by (simp add: fetchPullRequestComments_def)
qed

lemma twoPages_run:
  "\<exists>st. fetchLoop decimalDigits twoPages params1 initialState = Inr st"
  by (rule fetchLoop_returns) (simp add: twoPages_def)

theorem linkedIssues_first_page_witness:
  "snd (fetchPullRequestComments decimalDigits twoPages params1) = [toLinkedIssue issue7]"
proof -
  have c: "\<forall>n c r d. twoPages n c r = Inr d \<longrightarrow>
      hasNextPage (commentsPageInfo d) \<or> hasNextPage (reviewsPageInfo d) \<longrightarrow>
      truthy (endCursor (commentsPageInfo d)) \<or> truthy (endCursor (reviewsPageInfo d))"
    by (simp add: twoPages_def pageMore_def pageLast_def truthy_def js_def)
  have f: "twoPages 1 None None = Inr pageMore" by (simp add: twoPages_def)
  from twoPages_run obtain st where "fetchLoop decimalDigits twoPages params1 initialState = Inr st" ..
  from linkedIssues_first_page [OF c f this] show ?thesis by (simp add: pageMore_def)
qed

subsection \<open>Exceptions of the transport\<close>

lemma fetchLoop_throws_at:
  assumes k: "k \<le> MAX_PAGES"
    and pages: "\<forall>n. 0 < n \<and> n < k \<longrightarrow>
        graphql n (fst (cursorsAfter page (n - 1))) (snd (cursorsAfter page (n - 1))) = Inr (page n) \<and>
        (hasNextPage (commentsPageInfo (page n)) \<or> hasNextPage (reviewsPageInfo (page n)))"
    and thrown: "graphql k (fst (cursorsAfter page (k - 1))) (snd (cursorsAfter page (k - 1))) = Inl e"
  shows "pageCount st < k \<Longrightarrow> hasMoreComments st \<or> hasMoreReviews st \<Longrightarrow>
         (commentsEndCursor st, reviewsEndCursor st) = cursorsAfter page (pageCount st) \<Longrightarrow>
         fetchLoop numberToString graphql params st = Inl e"
proof (induction "k - pageCount st" arbitrary: st rule: less_induct)
  case less
  from less.prems(1) k have lt: "pageCount st < MAX_PAGES" by simp
  from less.prems(3) have cur: "commentsEndCursor st = fst (cursorsAfter page (pageCount st))"
    "reviewsEndCursor st = snd (cursorsAfter page (pageCount st))"
    by (metis fst_conv, metis snd_conv)
  show ?case
  proof (cases "pageCount st + 1 = k")
    case True
    with thrown cur have "graphql (pageCount st + 1) (commentsEndCursor st) (reviewsEndCursor st) = Inl e"
      by auto
    with less.prems(2) lt show ?thesis by (rule fetchLoop_throw)
  next
    case False
    with less.prems(1) have n: "0 < pageCount st + 1 \<and> pageCount st + 1 < k" by simp
    let ?d = "page (pageCount st + 1)"
    let ?st2 = "processPage numberToString params (st\<lparr>pageCount := pageCount st + 1\<rparr>) ?d"
    from pages n cur have call: "graphql (pageCount st + 1) (commentsEndCursor st) (reviewsEndCursor st) = Inr ?d"
      and more: "hasNextPage (commentsPageInfo ?d) \<or> hasNextPage (reviewsPageInfo ?d)"
      by (metis add_diff_cancel_right')+
    from more have more2: "hasMoreComments ?st2 \<or> hasMoreReviews ?st2"
      by (simp add: processPage_def)
    have pc: "pageCount ?st2 = pageCount st + 1" by (simp add: pageCount_processPage)
    have "fetchLoop numberToString graphql params st = fetchLoop numberToString graphql params ?st2"
      using less.prems(2) lt call refl more2 by (rule fetchLoop_next)
    also have "\<dots> = Inl e"
    proof (rule less.hyps)
      show "k - pageCount ?st2 < k - pageCount st" using n pc by simp
      show "pageCount ?st2 < k" using n pc by simp
      show "hasMoreComments ?st2 \<or> hasMoreReviews ?st2" by (rule more2)
      show "(commentsEndCursor ?st2, reviewsEndCursor ?st2) = cursorsAfter page (pageCount ?st2)"
        unfolding pc by (simp add: processPage_def cursorsAfter_def)
    qed
    finally show ?thesis .
  qed
qed

text \<open>
  C9: when the pages \<open>page 1\<close>, ..., \<open>page (k - 1)\<close> are received, each asking for a next
  page, and the transport throws on the \<open>k\<close>-th query (any \<open>k\<close> from 1 to 100), the result
  is an empty comment list and an empty linked-issue list; nothing is propagated.
\<close>

theorem fetchPullRequestComments_exception:
  assumes "0 < k" and "k \<le> 100"
    and "\<forall>n. 0 < n \<and> n < k \<longrightarrow>
        graphql n (fst (cursorsAfter page (n - 1))) (snd (cursorsAfter page (n - 1))) = Inr (page n) \<and>
        (hasNextPage (commentsPageInfo (page n)) \<or> hasNextPage (reviewsPageInfo (page n)))"
    and "graphql k (fst (cursorsAfter page (k - 1))) (snd (cursorsAfter page (k - 1))) = Inl e"
  shows "fetchPullRequestComments numberToString graphql params = ([], [])"
proof -
  from assms(2) have "k \<le> MAX_PAGES" by (simp add: MAX_PAGES_def)
  then have "fetchLoop numberToString graphql params initialState = Inl e"
    using assms(3,4)
  proof (rule fetchLoop_throws_at)
    show "pageCount initialState < k" using assms(1) by (simp add: initialState_def)
    show "hasMoreComments initialState \<or> hasMoreReviews initialState" by (simp add: initialState_def)
    show "(commentsEndCursor initialState, reviewsEndCursor initialState)
          = cursorsAfter page (pageCount initialState)"
      by (simp add: initialState_def cursorsAfter_def)
  qed
  then show ?thesis by (simp add: fetchPullRequestComments_def)
qed

theorem fetchPullRequestComments_exception_witness:
  "fetchPullRequestComments decimalDigits throwsAtSecond params1 = ([], [])
   \<and> throwsAtSecond 1 None None = Inr pageMore
   \<and> pushComments decimalDigits params1 [userComment, botComment] \<noteq> []"
proof -
  have p: "\<forall>n. 0 < n \<and> n < 2 \<longrightarrow>
        throwsAtSecond n (fst (cursorsAfter (\<lambda>n. pageMore) (n - 1))) (snd (cursorsAfter (\<lambda>n. pageMore) (n - 1)))
          = Inr pageMore \<and>
        (hasNextPage (commentsPageInfo pageMore) \<or> hasNextPage (reviewsPageInfo pageMore))"
    by (simp add: throwsAtSecond_def pageMore_def)
  have t: "throwsAtSecond 2 (fst (cursorsAfter (\<lambda>n. pageMore) (2 - 1))) (snd (cursorsAfter (\<lambda>n. pageMore) (2 - 1)))
           = Inl (js ''timeout'')"
    by (simp add: throwsAtSecond_def)
  have "fetchPullRequestComments decimalDigits throwsAtSecond params1 = ([], [])"
    by (rule fetchPullRequestComments_exception [where k = 2 and page = "\<lambda>n. pageMore" and graphql = throwsAtSecond, OF _ _ p t]) simp_all
  moreover have "throwsAtSecond 1 None None = Inr pageMore" by (simp add: throwsAtSecond_def)
  moreover have "pushComments decimalDigits params1 [userComment, botComment] \<noteq> []"
    by (simp add: pushComments_def userComment_def botComment_def js_def)
  ultimately show ?thesis by simp
qed

section \<open>Properties of parsePerFileDiffs\<close>

subsection \<open>The loop computes the segments of the matches\<close>

lemma parseLoop_loopResult:
  "parseLoop diff re li acc = loopResult diff li acc (matchesFrom diff re)"
proof (induction diff re li acc rule: parseLoop.induct)
  case (1 diff re li acc)
  show ?case
  proof (cases "exec diff re")
    case None
    then show ?thesis
      by (simp add: parseLoop.simps [of diff re] matchesFrom.simps [of diff re])
  next
    case (Some m)
    with "1.IH" [OF Some] show ?thesis
      by (simp add: parseLoop.simps [of diff re] matchesFrom.simps [of diff re])
  qed
qed

lemma setLastContent_snoc:
  "setLastContent (pre @ [f]) c = pre @ [f\<lparr>diffContent := c\<rparr>]"
  by (simp add: setLastContent_def)

lemma finish_loopResult:
  "index m < length diff \<Longrightarrow> \<forall>m'\<in>set ms. index m' < length diff \<Longrightarrow>
   finish diff (loopResult diff (index m) (pre @ [\<lparr>filename = group1 m, diffContent = []\<rparr>]) ms)
   = pre @ segmentsOf diff (m # ms)"
proof (induction ms arbitrary: m pre)
  case Nil
  then show ?case by (simp add: finish_def setLastContent_snoc)
next
  case (Cons m' ms)
  have "finish diff (loopResult diff (index m) (pre @ [\<lparr>filename = group1 m, diffContent = []\<rparr>]) (m' # ms))
        = finish diff (loopResult diff (index m')
            ((pre @ [\<lparr>filename = group1 m, diffContent = trim (substring diff (index m) (index m'))\<rparr>])
             @ [\<lparr>filename = group1 m', diffContent = []\<rparr>]) ms)"
    by (simp add: setLastContent_snoc)
  also have "\<dots> = (pre @ [\<lparr>filename = group1 m, diffContent = trim (substring diff (index m) (index m'))\<rparr>])
                    @ segmentsOf diff (m' # ms)"
    using Cons.prems by (intro Cons.IH) auto
  finally show ?case by simp
qed

lemma matchesFrom_index_less:
  "m \<in> set (matchesFrom diff re) \<Longrightarrow> index m < length diff"
proof (induction diff re rule: matchesFrom.induct)
  case (1 diff re)
  show ?case
  proof (cases "exec diff re")
    case None
    with "1.prems" show ?thesis by (simp add: matchesFrom.simps [of diff re])
  next
    case (Some m0)
    with "1.prems" have "m = m0 \<or> m \<in> set (matchesFrom diff (lastIndex m0))"
      by (simp add: matchesFrom.simps [of diff re])
    then show ?thesis
    proof
      assume "m = m0"
      with exec_progress [OF Some] show ?thesis by simp
    next
      assume "m \<in> set (matchesFrom diff (lastIndex m0))"
      with "1.IH" [OF Some] show ?thesis .
    qed
  qed
qed

lemma parsePerFileDiffs_segmentsOf:
  "parsePerFileDiffs diff = segmentsOf diff (matchesFrom diff 0)"
proof (cases "matchesFrom diff 0")
  case Nil
  then show ?thesis
    by (simp add: parsePerFileDiffs_def parseLoop_loopResult)
next
  case (Cons m ms)
  then have lt: "index m < length diff" "\<forall>m'\<in>set ms. index m' < length diff"
    using matchesFrom_index_less [of _ diff 0] by auto
  have "parsePerFileDiffs diff = finish diff (loopResult diff 0 [] (m # ms))"
    by (simp add: parsePerFileDiffs_def parseLoop_loopResult Cons finish_def)
  also have "\<dots> = finish diff (loopResult diff (index m) ([] @ [\<lparr>filename = group1 m, diffContent = []\<rparr>]) ms)"
    by simp
  also have "\<dots> = [] @ segmentsOf diff (m # ms)"
    using lt by (rule finish_loopResult)
  finally show ?thesis by (simp add: Cons)
qed

subsection \<open>One segment for each header line\<close>

lemma upt_split: "a \<le> b \<Longrightarrow> b \<le> c \<Longrightarrow> [a..<c] = [a..<b] @ [b..<c]"
  by (metis le_Suc_ex upt_add_eq_append)

lemma filter_upt_none: "(\<And>j. a \<le> j \<Longrightarrow> j < b \<Longrightarrow> \<not> P j) \<Longrightarrow> filter P [a..<b] = []"
  by (simp add: filter_empty_conv)

lemma restOfLine_nth:
  "k < length (restOfLine s i) \<Longrightarrow> \<not> isLineTerminator (s ! (i + k))"
proof -
  assume k: "k < length (restOfLine s i)"
  then have "restOfLine s i ! k \<in> set (restOfLine s i)" by (rule nth_mem)
  then have "\<not> isLineTerminator (restOfLine s i ! k)"
    unfolding restOfLine_def by (auto dest: set_takeWhileD)
  moreover have "restOfLine s i ! k = drop i s ! k"
    using k unfolding restOfLine_def by (rule takeWhile_nth)
  moreover have "i + k < length s"
    using k length_takeWhile_le [of "\<lambda>c. \<not> isLineTerminator c" "drop i s"]
    unfolding restOfLine_def by simp
  ultimately show ?thesis by simp
qed

lemma no_match_inside:
  assumes "matchAt s i = Some (g, e)" and "i < j" and "j \<le> e"
  shows "matchAt s j = None"
proof -
  from assms(1) have e: "e = i + length (restOfLine s i)"
    by (auto simp: matchAt_def split: if_splits option.splits)
  with assms(2,3) have "j - 1 - i < length (restOfLine s i)" by simp
  then have "\<not> isLineTerminator (s ! (i + (j - 1 - i)))" by (rule restOfLine_nth)
  moreover have "i + (j - 1 - i) = j - 1" using assms(2) by simp
  ultimately have "\<not> lineStart s j" using assms(2) by (simp add: lineStart_def)
  then show ?thesis by (simp add: matchAt_def)
qed

lemma matchesFrom_positions:
  "map index (matchesFrom diff re) = filter (\<lambda>j. matchAt diff j \<noteq> None) [re..<Suc (length diff)]"
proof (induction diff re rule: matchesFrom.induct)
  case (1 diff re)
  show ?case
  proof (cases "exec diff re")
    case None
    have "filter (\<lambda>j. matchAt diff j \<noteq> None) [re..<Suc (length diff)] = []"
      by (rule filter_upt_none) (simp add: exec_None [OF None])
    with None show ?thesis by (simp add: matchesFrom.simps [of diff re])
  next
    case (Some m)
    let ?P = "\<lambda>j. matchAt diff j \<noteq> None"
    from exec_Some [OF Some] have re: "re \<le> index m"
      and at: "matchAt diff (index m) = Some (group1 m, lastIndex m)"
      and before: "\<And>j. re \<le> j \<Longrightarrow> j < index m \<Longrightarrow> matchAt diff j = None"
      by auto
    from matchAt_bounds [OF at] have lt: "index m < lastIndex m" and le: "lastIndex m \<le> length diff"
      by auto
    have "[re..<Suc (length diff)]
          = [re..<index m] @ [index m..<Suc (index m)] @ [Suc (index m)..<lastIndex m]
            @ [lastIndex m..<Suc (length diff)]"
      using re lt le by (simp add: upt_split [symmetric] del: upt_Suc)
    moreover have "filter ?P [re..<index m] = []"
      by (rule filter_upt_none) (simp add: before)
    moreover have "filter ?P [Suc (index m)..<lastIndex m] = []"
      by (rule filter_upt_none) (simp add: no_match_inside [OF at])
    moreover have "filter ?P [index m..<Suc (index m)] = [index m]"
      using at by simp
    ultimately have "filter ?P [re..<Suc (length diff)]
                     = index m # filter ?P [lastIndex m..<Suc (length diff)]"
      by (simp del: upt_Suc)
    with "1.IH" [OF Some] Some show ?thesis
      by (simp add: matchesFrom.simps [of diff re])
  qed
qed

lemma length_segmentsOf: "length (segmentsOf diff ms) = length ms"
  by (induction diff ms rule: segmentsOf.induct) auto

lemma length_parsePerFileDiffs: "length (parsePerFileDiffs diff) = headerCount diff"
proof -
  have "length (parsePerFileDiffs diff) = length (map index (matchesFrom diff 0))"
    by (simp add: parsePerFileDiffs_segmentsOf length_segmentsOf)
  then show ?thesis by (simp only: matchesFrom_positions headerCount_def)
qed

subsection \<open>The segments as trimmed chunks between headers\<close>

lemma matchesFrom_cases:
  "matchesFrom diff re = m # ms \<Longrightarrow>
   re \<le> index m \<and> matchAt diff (index m) = Some (group1 m, lastIndex m)
   \<and> ms = matchesFrom diff (lastIndex m)"
  using exec_Some [of diff re]
  by (auto simp: matchesFrom.simps [of diff re] split: option.splits)

lemma segments_chunks:
  "seg \<in> set (segmentsOf diff (matchesFrom diff re)) \<Longrightarrow>
   \<exists>i e j. matchAt diff i = Some (filename seg, e) \<and> e \<le> j \<and> j \<le> length diff \<and>
           diffContent seg = trim (substring diff i j)"
proof (induction diff re rule: matchesFrom.induct)
  case (1 diff re)
  show ?case
  proof (cases "matchesFrom diff re")
    case Nil
    with "1.prems" show ?thesis by simp
  next
    case (Cons m ms)
    from matchesFrom_cases [OF Cons] have at: "matchAt diff (index m) = Some (group1 m, lastIndex m)"
      and ms: "ms = matchesFrom diff (lastIndex m)" by auto
    from Cons have ex: "exec diff re = Some m"
      by (auto simp: matchesFrom.simps [of diff re] split: option.splits)
    from matchAt_bounds [OF at] have le: "lastIndex m \<le> length diff" by simp
    show ?thesis
    proof (cases ms)
      case Nil
      with "1.prems" Cons have "seg = \<lparr>filename = group1 m,
          diffContent = trim (substring diff (index m) (length diff))\<rparr>" by simp
      with at le show ?thesis by auto
    next
      case (Cons m' ms')
      with ms have c': "matchesFrom diff (lastIndex m) = m' # ms'" by simp
      from matchesFrom_cases [OF c'] have le': "lastIndex m \<le> index m'"
        and at': "matchAt diff (index m') = Some (group1 m', lastIndex m')" by auto
      from matchAt_bounds [OF at'] have len': "index m' \<le> length diff" by simp
      from "1.prems" \<open>matchesFrom diff re = m # ms\<close> Cons
      have "seg = \<lparr>filename = group1 m, diffContent = trim (substring diff (index m) (index m'))\<rparr>
            \<or> seg \<in> set (segmentsOf diff (matchesFrom diff (lastIndex m)))"
        using c' by auto
      then show ?thesis
      proof
        assume "seg = \<lparr>filename = group1 m, diffContent = trim (substring diff (index m) (index m'))\<rparr>"
        with at le' len' show ?thesis by auto
      next
        assume "seg \<in> set (segmentsOf diff (matchesFrom diff (lastIndex m)))"
        with "1.IH" [OF ex] show ?thesis .
      qed
    qed
  qed
qed

subsection \<open>The header line survives the trim\<close>

lemma prefix_iff_take: "prefix p xs \<longleftrightarrow> take (length p) xs = p"
proof
  assume "prefix p xs"
  then show "take (length p) xs = p" by (auto simp: prefix_def)
next
  assume "take (length p) xs = p"
  then show "prefix p xs" by (metis take_is_prefix)
qed

lemma lazyCapture_Some:
  "lazyCapture r = Some f \<Longrightarrow>
   \<exists>tail. r = f @ js '' b/'' @ tail \<and> (\<forall>t. lazyCapture (f @ js '' b/'' @ t) = Some f)"
proof (induction r arbitrary: f)
  case Nil
  then show ?case by simp
next
  case (Cons c cs)
  show ?case
  proof (cases "prefix (js '' b/'') (c # cs)")
    case True
    with Cons.prems have f: "f = []" by simp
    from True obtain tail where "c # cs = js '' b/'' @ tail" by (auto simp: prefix_def)
    moreover have "lazyCapture (js '' b/'' @ t) = Some []" for t
      by (simp add: js_def)
    ultimately show ?thesis using f by auto
  next
    case False
    with Cons.prems obtain f' where f': "lazyCapture cs = Some f'" and f: "f = c # f'"
      by auto
    from Cons.IH [OF f'] obtain tail where cs: "cs = f' @ js '' b/'' @ tail"
      and st: "\<forall>t. lazyCapture (f' @ js '' b/'' @ t) = Some f'" by blast
    have "\<not> prefix (js '' b/'') (c # f' @ js '' b/'' @ t)" for t
    proof -
      have "take (length (js '' b/'')) (c # f' @ js '' b/'' @ t)
            = take (length (js '' b/'')) (c # f' @ js '' b/'' @ tail)"
        by (cases f'; cases "tl f'") (auto simp: js_def)
      moreover from False have "take (length (js '' b/'')) (c # f' @ js '' b/'' @ tail) \<noteq> js '' b/''"
        unfolding cs prefix_iff_take .
      ultimately show ?thesis unfolding prefix_iff_take by simp
    qed
    with st f cs show ?thesis by auto
  qed
qed

lemma dropWhile_append_keep:
  "\<not> P y \<Longrightarrow> dropWhile P (xs @ y # ys) = dropWhile P xs @ y # ys"
  by (induction xs) auto

lemma header_not_trimmable: "js ''diff --git a/'' = c # cs \<Longrightarrow> \<not> trimmable c"
  by (auto simp: js_def trimmable_def isWhiteSpace_def isLineTerminator_def)

lemma rev_sep: "rev (js '' b/'') = 0x2F # rev (js '' b'')"
  by (simp add: js_def)

lemma slash_not_trimmable: "\<not> trimmable (0x2F :: codeunit)"
  by (simp add: trimmable_def isWhiteSpace_def isLineTerminator_def)

lemma substring_between:
  "i \<le> j \<Longrightarrow> j \<le> length s \<Longrightarrow> substring s i j = take (j - i) (drop i s)"
  by (simp add: substring_def Let_def min_def max_def)

lemma trim_keeps_header:
  assumes chunk: "chunk = js ''diff --git a/'' @ f @ js '' b/'' @ rest"
  shows "\<exists>rest'. trim chunk = js ''diff --git a/'' @ f @ js '' b/'' @ rest'"
proof -
  let ?u = "js ''diff --git a/'' @ f @ js '' b/''"
  obtain c cs where hc: "js ''diff --git a/'' = c # cs" by (simp add: js_def)
  then have "\<not> trimmable c" by (rule header_not_trimmable)
  then have lead: "dropWhile trimmable chunk = chunk"
    unfolding chunk hc by simp
  have keep: "dropWhile trimmable (rev rest @ 0x2F # R) = dropWhile trimmable (rev rest) @ 0x2F # R"
    for R using slash_not_trimmable by (rule dropWhile_append_keep)
  have "rev chunk = rev rest @ 0x2F # (rev (js '' b'') @ rev f @ rev (js ''diff --git a/''))"
    unfolding chunk by (simp add: rev_sep)
  then have "dropWhile trimmable (rev chunk)
             = dropWhile trimmable (rev rest) @ 0x2F # (rev (js '' b'') @ rev f @ rev (js ''diff --git a/''))"
    by (simp only: keep)
  also have "\<dots> = dropWhile trimmable (rev rest) @ rev ?u"
    by (simp add: rev_sep)
  finally have "trim chunk = ?u @ rev (dropWhile trimmable (rev rest))"
    by (simp add: trim_def lead)
  then show ?thesis by auto
qed

lemma chunk_shape:
  assumes at: "matchAt diff i = Some (f, e)" and ej: "e \<le> j" and jl: "j \<le> length diff"
  shows "\<exists>rest. substring diff i j = js ''diff --git a/'' @ f @ js '' b/'' @ rest \<and>
           (\<forall>c\<in>set (js ''diff --git a/'' @ f @ js '' b/''). \<not> isLineTerminator c) \<and>
           (\<forall>t. lazyCapture (f @ js '' b/'' @ t) = Some f)"
proof -
  let ?hdr = "js ''diff --git a/''"
  let ?sep = "js '' b/''"
  define line where "line = restOfLine diff i"
  from at have p: "prefix ?hdr line" and cap: "lazyCapture (drop (length ?hdr) line) = Some f"
    and e: "e = i + length line"
    by (auto simp: matchAt_def line_def split: if_splits option.splits)
  from lazyCapture_Some [OF cap] obtain tail
    where tl: "drop (length ?hdr) line = f @ ?sep @ tail"
      and stable: "\<forall>t. lazyCapture (f @ ?sep @ t) = Some f" by blast
  from p have "line = ?hdr @ drop (length ?hdr) line" by (auto simp: prefix_def)
  with tl have line: "line = ?hdr @ f @ ?sep @ tail" by simp
  have "\<forall>c\<in>set line. \<not> isLineTerminator c"
    unfolding line_def restOfLine_def by (auto dest: set_takeWhileD)
  then have noLT: "\<forall>c\<in>set (?hdr @ f @ ?sep). \<not> isLineTerminator c"
    unfolding line by auto
  from matchAt_bounds [OF at] ej have ij: "i \<le> j" by simp
  have chunk: "substring diff i j = take (j - i) (drop i diff)"
    using ij jl by (rule substring_between)
  have "line = take (length line) (drop i diff)"
    unfolding line_def restOfLine_def by (rule takeWhile_eq_take)
  moreover have "length line \<le> j - i" using e ej by simp
  ultimately have "take (length line) (substring diff i j) = line"
    unfolding chunk by (simp add: min_absorb1)
  then have "substring diff i j = line @ drop (length line) (substring diff i j)"
    by (metis append_take_drop_id)
  then have "substring diff i j = ?hdr @ f @ ?sep @ (tail @ drop (length line) (substring diff i j))"
    unfolding line by simp
  with noLT stable show ?thesis by blast
qed

lemma header_survives_trim:
  assumes at: "matchAt diff i = Some (f, e)" and ej: "e \<le> j" and jl: "j \<le> length diff"
  shows "\<exists>e'. matchAt (trim (substring diff i j)) 0 = Some (f, e')"
proof -
  let ?hdr = "js ''diff --git a/''"
  let ?sep = "js '' b/''"
  from chunk_shape [OF assms] obtain rest
    where shape: "substring diff i j = ?hdr @ f @ ?sep @ rest"
      and u: "\<forall>c\<in>set (?hdr @ f @ ?sep). \<not> isLineTerminator c"
      and stable: "\<forall>t. lazyCapture (f @ ?sep @ t) = Some f" by blast
  from trim_keeps_header [OF shape] obtain rest'
    where tr: "trim (substring diff i j) = ?hdr @ f @ ?sep @ rest'" by blast
  have rl: "restOfLine (trim (substring diff i j)) 0
        = (?hdr @ f @ ?sep) @ takeWhile (\<lambda>c. \<not> isLineTerminator c) rest'"
  proof -
    have "takeWhile (\<lambda>c. \<not> isLineTerminator c) ((?hdr @ f @ ?sep) @ rest')
          = (?hdr @ f @ ?sep) @ takeWhile (\<lambda>c. \<not> isLineTerminator c) rest'"
      using u by (intro takeWhile_append2) blast
    then show ?thesis unfolding restOfLine_def tr by simp
  qed
  have "matchAt (trim (substring diff i j)) 0
        = Some (f, 0 + length (restOfLine (trim (substring diff i j)) 0))"
    unfolding matchAt_def rl using stable
    by (simp add: lineStart_def)
  then show ?thesis by blast
qed

text \<open>
  C10: the pattern matches at index 0 of the content of every segment and captures the
  segment's filename: the content begins with the header line of its own file. In
  particular no segment has an empty content.
\<close>

theorem parsePerFileDiffs_keeps_header:
  "seg \<in> set (parsePerFileDiffs diff) \<Longrightarrow> \<exists>e. matchAt (diffContent seg) 0 = Some (filename seg, e)"
  unfolding parsePerFileDiffs_segmentsOf
  by (drule segments_chunks) (auto dest: header_survives_trim)

lemma parse_junkThenHeader:
  "parsePerFileDiffs junkThenHeader = [\<lparr>filename = js ''x'', diffContent = js ''diff --git a/x b/x''\<rparr>]"
  by code_simp

theorem parsePerFileDiffs_keeps_header_witness:
  "\<lparr>filename = js ''x'', diffContent = js ''diff --git a/x b/x''\<rparr> \<in> set (parsePerFileDiffs junkThenHeader)
   \<and> (\<exists>e. matchAt (js ''diff --git a/x b/x'') 0 = Some (js ''x'', e))"
proof -
  have m: "\<lparr>filename = js ''x'', diffContent = js ''diff --git a/x b/x''\<rparr> \<in> set (parsePerFileDiffs junkThenHeader)"
    by (simp add: parse_junkThenHeader)
  from parsePerFileDiffs_keeps_header [OF m] m show ?thesis by simp
qed

subsection \<open>The segments cover the input from the first header line on\<close>

lemma trim_split:
  assumes "chunk = c # cs" and "\<not> trimmable c"
  shows "\<exists>w. list_all trimmable w \<and> chunk = trim chunk @ w"
proof -
  from assms have lead: "dropWhile trimmable chunk = chunk" by simp
  have "rev chunk = takeWhile trimmable (rev chunk) @ dropWhile trimmable (rev chunk)"
    by simp
  then have "chunk = rev (dropWhile trimmable (rev chunk)) @ rev (takeWhile trimmable (rev chunk))"
    by (metis rev_append rev_rev_ident)
  then have "chunk = trim chunk @ rev (takeWhile trimmable (rev chunk))"
    by (simp add: trim_def lead)
  moreover have "list_all trimmable (rev (takeWhile trimmable (rev chunk)))"
    by (auto simp: list_all_iff dest: set_takeWhileD)
  ultimately show ?thesis by blast
qed

lemma chunk_trim_split:
  assumes "matchAt diff i = Some (f, e)" and "e \<le> j" and "j \<le> length diff"
  shows "\<exists>w. list_all trimmable w \<and> substring diff i j = trim (substring diff i j) @ w"
proof -
  from chunk_shape [OF assms] obtain rest
    where "substring diff i j = js ''diff --git a/'' @ f @ js '' b/'' @ rest" by blast
  moreover obtain c cs where hc: "js ''diff --git a/'' = c # cs" by (simp add: js_def)
  ultimately have "substring diff i j = c # (cs @ f @ js '' b/'' @ rest)" by simp
  moreover from hc have "\<not> trimmable c" by (rule header_not_trimmable)
  ultimately show ?thesis by (rule trim_split)
qed

lemma segments_cover:
  "matchesFrom diff re = m # ms \<Longrightarrow>
   \<exists>ws. length ws = length (m # ms) \<and> list_all (list_all trimmable) ws \<and>
        drop (index m) diff
        = concat (map2 (\<lambda>seg w. diffContent seg @ w) (segmentsOf diff (m # ms)) ws)"
proof (induction diff re arbitrary: m ms rule: matchesFrom.induct)
  case (1 diff re)
  from matchesFrom_cases [OF "1.prems"] have at: "matchAt diff (index m) = Some (group1 m, lastIndex m)"
    and ms: "ms = matchesFrom diff (lastIndex m)" by auto
  from "1.prems" have ex: "exec diff re = Some m"
    by (auto simp: matchesFrom.simps [of diff re] split: option.splits)
  from matchAt_bounds [OF at] have lt: "index m < lastIndex m" and le: "lastIndex m \<le> length diff"
    by auto
  show ?case
  proof (cases ms)
    case Nil
    from chunk_trim_split [OF at le order_refl] obtain w where w: "list_all trimmable w"
      and c: "substring diff (index m) (length diff)
              = trim (substring diff (index m) (length diff)) @ w" by blast
    have "substring diff (index m) (length diff) = drop (index m) diff"
      using lt le by (simp add: substring_between)
    with c have "drop (index m) diff = trim (substring diff (index m) (length diff)) @ w" by simp
    with w Nil show ?thesis by (intro exI [of _ "[w]"]) simp
  next
    case (Cons m' ms')
    with ms have c': "matchesFrom diff (lastIndex m) = m' # ms'" by simp
    from matchesFrom_cases [OF c'] have le': "lastIndex m \<le> index m'"
      and at': "matchAt diff (index m') = Some (group1 m', lastIndex m')" by auto
    from matchAt_bounds [OF at'] have len': "index m' \<le> length diff" by simp
    from "1.IH" [OF ex c'] obtain ws where ws: "length ws = length (m' # ms')"
      "list_all (list_all trimmable) ws"
      "drop (index m') diff
       = concat (map2 (\<lambda>seg w. diffContent seg @ w) (segmentsOf diff (m' # ms')) ws)" by blast
    from chunk_trim_split [OF at le' len'] obtain w where w: "list_all trimmable w"
      and c: "substring diff (index m) (index m')
              = trim (substring diff (index m) (index m')) @ w" by blast
    have "substring diff (index m) (index m') = take (index m' - index m) (drop (index m) diff)"
      using lt le' len' by (simp add: substring_between)
    moreover have "drop (index m' - index m) (drop (index m) diff) = drop (index m') diff"
      using lt le' by simp
    ultimately have "drop (index m) diff = substring diff (index m) (index m') @ drop (index m') diff"
      by (metis append_take_drop_id)
    with c ws(3) have "drop (index m) diff
        = (trim (substring diff (index m) (index m')) @ w)
          @ concat (map2 (\<lambda>seg w. diffContent seg @ w) (segmentsOf diff (m' # ms')) ws)"
      by simp
    with w ws(1,2) Cons show ?thesis by (intro exI [of _ "w # ws"]) simp
  qed
qed

lemma splitLines_last:
  "dropWhile (\<lambda>c. \<not> isLineTerminator c) s = [] \<Longrightarrow>
   splitLines s = [takeWhile (\<lambda>c. \<not> isLineTerminator c) s]"
  by (subst splitLines.simps) (simp only: list.case)

lemma splitLines_more:
  "dropWhile (\<lambda>c. \<not> isLineTerminator c) s = c # rest \<Longrightarrow>
   splitLines s = takeWhile (\<lambda>c. \<not> isLineTerminator c) s # splitLines rest"
  by (subst splitLines.simps) (simp only: list.case)

lemma matchAt_lineStart:
  "lineStart diff i \<Longrightarrow> matchAt diff i \<noteq> None \<longleftrightarrow> isHeaderLine (restOfLine diff i)"
  by (auto simp: matchAt_def isHeaderLine_def split: option.splits)

lemma not_lineStart_inside:
  assumes "i < j" and "j \<le> i + length (restOfLine diff i)"
  shows "matchAt diff j = None"
proof -
  from assms have "j - 1 - i < length (restOfLine diff i)" by simp
  then have "\<not> isLineTerminator (diff ! (i + (j - 1 - i)))" by (rule restOfLine_nth)
  moreover have "i + (j - 1 - i) = j - 1" using assms(1) by simp
  ultimately have "\<not> lineStart diff j" using assms(1) by (simp add: lineStart_def)
  then show ?thesis by (simp add: matchAt_def)
qed

lemma count_from_lineStart:
  "lineStart diff i \<Longrightarrow> i \<le> length diff \<Longrightarrow>
   length (filter (\<lambda>j. matchAt diff j \<noteq> None) [i..<Suc (length diff)])
   = length (filter isHeaderLine (splitLines (drop i diff)))"
proof (induction "length diff - i" arbitrary: i rule: less_induct)
  case less
  let ?P = "\<lambda>j. matchAt diff j \<noteq> None"
  let ?line = "restOfLine diff i"
  let ?k = "length ?line"
  have td: "drop i diff = ?line @ dropWhile (\<lambda>c. \<not> isLineTerminator c) (drop i diff)"
    unfolding restOfLine_def by simp
  have kle: "i + ?k \<le> length diff"
    using length_takeWhile_le [of "\<lambda>c. \<not> isLineTerminator c" "drop i diff"] less.prems(2)
    unfolding restOfLine_def by simp
  have here: "filter ?P [i..<Suc i] = (if isHeaderLine ?line then [i] else [])"
    using matchAt_lineStart [OF less.prems(1)] by simp
  have inside: "filter ?P [Suc i..<Suc (i + ?k)] = []"
  proof (rule filter_upt_none)
    fix j assume "Suc i \<le> j" "j < Suc (i + ?k)"
    then have "matchAt diff j = None" by (intro not_lineStart_inside [of i]) simp_all
    then show "\<not> ?P j" by simp
  qed
  show ?case
  proof (cases "dropWhile (\<lambda>c. \<not> isLineTerminator c) (drop i diff)")
    case Nil
    with td have "length (drop i diff) = ?k" by simp
    with less.prems(2) have end': "i + ?k = length diff" by simp
    have "[i..<Suc (length diff)] = [i..<Suc i] @ [Suc i..<Suc (i + ?k)]"
      unfolding end' [symmetric] by (rule upt_split) simp_all
    then have "filter ?P [i..<Suc (length diff)] = (if isHeaderLine ?line then [i] else [])"
      using here inside by (simp del: upt_Suc)
    moreover have "splitLines (drop i diff) = [?line]"
      unfolding restOfLine_def using Nil by (rule splitLines_last)
    ultimately show ?thesis by simp
  next
    case (Cons c rest)
    have cLT: "isLineTerminator c"
      using Cons hd_dropWhile [of "\<lambda>c. \<not> isLineTerminator c" "drop i diff"] by simp
    from td Cons have d: "drop i diff = ?line @ c # rest" by simp
    then have len: "length diff - i = ?k + Suc (length rest)"
      by (metis length_drop length_append length_Cons)
    then have lt: "i + ?k < length diff" by simp
    have nth: "diff ! (i + ?k) = c"
      using d less.prems(2) by (metis nth_drop nth_append_length)
    have rest: "drop (Suc (i + ?k)) diff = rest"
    proof -
      have "drop (Suc ?k) (drop i diff) = rest" unfolding d by simp
      then show ?thesis by (simp add: add.commute)
    qed
    have ls: "lineStart diff (Suc (i + ?k))" using nth cLT by (simp add: lineStart_def)
    have "[i..<Suc (length diff)]
          = [i..<Suc i] @ [Suc i..<Suc (i + ?k)] @ [Suc (i + ?k)..<Suc (length diff)]"
      using lt by (simp add: upt_split [symmetric] del: upt_Suc)
    then have "filter ?P [i..<Suc (length diff)]
               = (if isHeaderLine ?line then [i] else [])
                 @ filter ?P [Suc (i + ?k)..<Suc (length diff)]"
      using here inside by (simp del: upt_Suc)
    moreover have "length (filter ?P [Suc (i + ?k)..<Suc (length diff)])
                   = length (filter isHeaderLine (splitLines (drop (Suc (i + ?k)) diff)))"
      using lt ls by (intro less.hyps) simp_all
    moreover have "splitLines (drop i diff) = ?line # splitLines rest"
      unfolding restOfLine_def using Cons by (rule splitLines_more)
    ultimately show ?thesis by (simp add: rest)
  qed
qed

lemma headerCount_lines: "headerCount diff = headerLineCount diff"
  unfolding headerCount_def headerLineCount_def
  using count_from_lineStart [of diff 0] by (simp add: lineStart_def)

text \<open>
  C2 (as amended): the number of segments is the number of header lines, and the input
  is the text before the first header line followed by the contents of the segments in
  order, each followed by a run of the whitespace that \<^verbatim>\<open>trim\<close> removed.
\<close>

theorem parsePerFileDiffs_covers:
  "length (parsePerFileDiffs diff) = headerLineCount diff \<and>
   (\<exists>ws. length ws = headerLineCount diff \<and> list_all (list_all trimmable) ws \<and>
      diff = preamble diff
             @ concat (map2 (\<lambda>seg w. diffContent seg @ w) (parsePerFileDiffs diff) ws))"
proof (cases "matchesFrom diff 0")
  case Nil
  then have "exec diff 0 = None"
    by (simp add: matchesFrom.simps [of diff 0] split: option.splits)
  then have "preamble diff = diff" by (simp add: preamble_def)
  moreover from Nil have "parsePerFileDiffs diff = []" by (simp add: parsePerFileDiffs_segmentsOf)
  moreover from this have "headerCount diff = 0" using length_parsePerFileDiffs [of diff] by simp
  ultimately show ?thesis by (simp add: headerCount_lines [symmetric])
next
  case (Cons m ms)
  then have "exec diff 0 = Some m"
    by (auto simp: matchesFrom.simps [of diff 0] split: option.splits)
  then have pre: "preamble diff = take (index m) diff" by (simp add: preamble_def)
  have n: "headerCount diff = length (m # ms)"
    using length_parsePerFileDiffs [of diff] Cons
    by (simp add: parsePerFileDiffs_segmentsOf length_segmentsOf)
  from segments_cover [OF Cons] obtain ws where ws: "length ws = length (m # ms)"
    "list_all (list_all trimmable) ws"
    "drop (index m) diff
     = concat (map2 (\<lambda>seg w. diffContent seg @ w) (segmentsOf diff (m # ms)) ws)" by blast
  have "diff = take (index m) diff @ drop (index m) diff" by simp
  with ws(3) have "diff = preamble diff
      @ concat (map2 (\<lambda>seg w. diffContent seg @ w) (parsePerFileDiffs diff) ws)"
    by (simp only: pre parsePerFileDiffs_segmentsOf Cons)
  with ws(1,2) n length_parsePerFileDiffs [of diff] show ?thesis
    by (auto simp: headerCount_lines [symmetric])
qed

text \<open>
  C2 as stated fails: text before the first header line is in no segment, so the
  contents and whitespace separators alone do not give the input back.
\<close>

lemma headerLineCount_junkThenHeader: "headerLineCount junkThenHeader = 1"
  by code_simp

theorem parsePerFileDiffs_gap_counterexample:
  "headerLineCount junkThenHeader = 1
   \<and> parsePerFileDiffs junkThenHeader = [\<lparr>filename = js ''x'', diffContent = js ''diff --git a/x b/x''\<rparr>]
   \<and> \<not> (\<exists>w0 ws. list_all trimmable w0 \<and> length ws = 1 \<and> list_all (list_all trimmable) ws \<and>
          junkThenHeader
          = w0 @ concat (map2 (\<lambda>seg w. diffContent seg @ w) (parsePerFileDiffs junkThenHeader) ws))"
proof -
  have "\<not> (\<exists>w0 ws. list_all trimmable w0 \<and> length ws = 1 \<and> list_all (list_all trimmable) ws \<and>
          junkThenHeader
          = w0 @ concat (map2 (\<lambda>seg w. diffContent seg @ w) (parsePerFileDiffs junkThenHeader) ws))"
  proof
    assume "\<exists>w0 ws. list_all trimmable w0 \<and> length ws = 1 \<and> list_all (list_all trimmable) ws \<and>
          junkThenHeader
          = w0 @ concat (map2 (\<lambda>seg w. diffContent seg @ w) (parsePerFileDiffs junkThenHeader) ws)"
    then obtain w0 ws where w0: "list_all trimmable w0" and len: "length ws = 1"
      and eq: "junkThenHeader
          = w0 @ concat (map2 (\<lambda>seg w. diffContent seg @ w) (parsePerFileDiffs junkThenHeader) ws)"
      by blast
    from len obtain w where "ws = [w]" by (auto simp: length_Suc_conv)
    with eq have eq': "junkThenHeader = w0 @ js ''diff --git a/x b/x'' @ w"
      by (simp add: parse_junkThenHeader)
    show False
    proof (cases w0)
      case Nil
      with eq' show False by (simp add: junkThenHeader_def js_def)
    next
      case (Cons c cs)
      with eq' have "c = 0x6A" by (simp add: junkThenHeader_def js_def)
      with w0 Cons show False
        by (simp add: trimmable_def isWhiteSpace_def isLineTerminator_def)
    qed
  qed
  with headerLineCount_junkThenHeader parse_junkThenHeader show ?thesis by blast
qed

lemma preamble_junkThenHeader: "preamble junkThenHeader = js ''junk\<newline>''"
  by code_simp

theorem parsePerFileDiffs_covers_witness:
  "length (parsePerFileDiffs junkThenHeader) = 1 \<and>
   (\<exists>ws. length ws = 1 \<and> list_all (list_all trimmable) ws \<and>
      junkThenHeader
      = js ''junk\<newline>''
        @ concat (map2 (\<lambda>seg w. diffContent seg @ w) (parsePerFileDiffs junkThenHeader) ws))"
  using parsePerFileDiffs_covers [of junkThenHeader]
  by (simp only: headerLineCount_junkThenHeader preamble_junkThenHeader)

end
